theory Spec2Isabelle
  imports Complex_Main "HOL-Library.AList" "HOL-Library.Multiset"
begin

section \<open>Python values used by the strategy\<close>

text \<open>
  Prices, quantities and returns are Python floats in the source; they are modelled in
  exact arithmetic as \<^typ>\<open>real\<close>. Python integers are \<^typ>\<open>int\<close>. The exceptions the
  modelled code can raise are values of \<open>error\<close>.
\<close>

datatype error = IndexError | KeyError | ZeroDivisionError

text \<open>\<open>xs[i]\<close>: a negative index counts from the end, an index out of range raises.\<close>

definition py_index :: "'a list \<Rightarrow> int \<Rightarrow> error + 'a" where
  "py_index xs i =
     (if 0 \<le> i \<and> i < int (length xs) then Inr (xs ! nat i)
      else if i < 0 \<and> - i \<le> int (length xs) then Inr (xs ! nat (int (length xs) + i))
      else Inl IndexError)"

text \<open>\<open>xs[:k]\<close> and \<open>xs[k:]\<close>: a negative bound counts from the end and is clamped at 0.\<close>

definition py_slice_to :: "int \<Rightarrow> 'a list \<Rightarrow> 'a list" where
  "py_slice_to k xs = take (nat (if k < 0 then int (length xs) + k else k)) xs"

definition py_slice_from :: "int \<Rightarrow> 'a list \<Rightarrow> 'a list" where
  "py_slice_from k xs = drop (nat (if k < 0 then int (length xs) + k else k)) xs"

section \<open>strategy1.py: the engine state and its effects\<close>

record algo_state =
  instrument_list :: "string list"
  lookback_period :: int
  rebalance_period :: int
  hold_N_assets :: int
  rebalance_counter :: int
  historical_data :: "string \<Rightarrow> real list option"

record market_data =
  instrument :: string
  close :: real

datatype log_msg =
    StrategyStarted "string list" int
  | ProcessingBulk
  | BulkComplete
  | RebalancingDay
  | NotEnoughData string nat
  | TopPerformers "string list"
  | BottomPerformers "string list"
  | ClosingPositions "string list"

text \<open>
  What a handler does to the platform: a line written with \<open>evt.log\<close>, or an order
  \<open>evt.sendOrder(instrument, quantity, order_type, price, mode)\<close>.
\<close>

datatype effect =
    Log log_msg
  | SendOrder string real string real string

text \<open>\<open>__init__\<close>: the four strategy parameters are literals of the source.\<close>

definition AlgoEvent_init :: algo_state where
  "AlgoEvent_init =
     \<lparr> instrument_list = [''SPY'', ''QQQ'', ''IWM'', ''EFA'', ''EEM'', ''GLD'', ''USO''],
       lookback_period = 120,
       rebalance_period = 20,
       hold_N_assets = 2,
       rebalance_counter = 0,
       historical_data = Map.empty \<rparr>"

text \<open>\<open>start\<close>: every instrument of the universe gets an empty price history.\<close>

definition start :: "algo_state \<Rightarrow> algo_state \<times> effect list" where
  "start s =
     (s\<lparr>historical_data :=
          fold (\<lambda>i h. h(i \<mapsto> [])) (instrument_list s) (historical_data s)\<rparr>,
      [Log (StrategyStarted (instrument_list s) (lookback_period s))])"

text \<open>
  \<open>on_bulkdatafeed\<close>: \<open>bd\<close> maps an instrument to the closes of its historical bars.
  The history is looked up once per bar, so an instrument without a history raises
  \<open>KeyError\<close> only when it has a bar.
\<close>

fun append_bars :: "(string \<Rightarrow> real list option) \<Rightarrow> string \<Rightarrow> real list \<Rightarrow>
    (string \<Rightarrow> real list option) \<times> error option" where
  "append_bars h i [] = (h, None)"
| "append_bars h i (c # cs) =
     (case h i of
        None \<Rightarrow> (h, Some KeyError)
      | Some ps \<Rightarrow> append_bars (h(i \<mapsto> ps @ [c])) i cs)"

fun bulk_loop :: "(string \<Rightarrow> real list option) \<Rightarrow> (string \<Rightarrow> real list option) \<Rightarrow>
    string list \<Rightarrow> (string \<Rightarrow> real list option) \<times> error option" where
  "bulk_loop bd h [] = (h, None)"
| "bulk_loop bd h (i # rest) =
     (case bd i of
        None \<Rightarrow> bulk_loop bd h rest
      | Some bars \<Rightarrow>
          (case append_bars h i bars of
             (h', Some e) \<Rightarrow> (h', Some e)
           | (h', None) \<Rightarrow> bulk_loop bd h' rest))"

definition on_bulkdatafeed :: "bool \<Rightarrow> (string \<Rightarrow> real list option) \<Rightarrow> algo_state \<Rightarrow>
    algo_state \<times> effect list \<times> error option" where
  "on_bulkdatafeed isSync bd s =
     (if isSync then
        (case bulk_loop bd (historical_data s) (instrument_list s) of
           (h, Some e) \<Rightarrow> (s\<lparr>historical_data := h\<rparr>, [Log ProcessingBulk], Some e)
         | (h, None) \<Rightarrow>
             (s\<lparr>historical_data := h\<rparr>, [Log ProcessingBulk, Log BulkComplete], None))
      else (s, [Log ProcessingBulk], None))"

section \<open>strategy1.py: the rebalancing day logic of \<open>on_marketdatafeed\<close>\<close>

text \<open>
  The loop that checks the history lengths: the first instrument of the universe with
  fewer than \<open>lookback_period\<close> prices is reported, with the length it has.
\<close>

fun check_history :: "(string \<Rightarrow> real list option) \<Rightarrow> int \<Rightarrow> string list \<Rightarrow>
    error + (string \<times> nat) option" where
  "check_history h lb [] = Inr None"
| "check_history h lb (i # rest) =
     (case h i of
        None \<Rightarrow> Inl KeyError
      | Some ps \<Rightarrow>
          if int (length ps) < lb then Inr (Some (i, length ps))
          else check_history h lb rest)"

text \<open>\<open>(prices[-1] / prices[-lookback_period]) - 1\<close>, evaluated left to right.\<close>

definition momentum :: "real list \<Rightarrow> int \<Rightarrow> error + real" where
  "momentum prices lb =
     (case py_index prices (- 1) of
        Inl e \<Rightarrow> Inl e
      | Inr cur \<Rightarrow>
          (case py_index prices (- lb) of
             Inl e \<Rightarrow> Inl e
           | Inr old \<Rightarrow> if old = 0 then Inl ZeroDivisionError else Inr (cur / old - 1)))"

text \<open>
  The loop that fills the dictionary \<open>momentum_scores\<close>. A Python dictionary keeps its
  keys in insertion order and assigning to a key it has keeps the key's place: that is
  \<^const>\<open>AList.update\<close> on an association list.
\<close>

fun momentum_scores :: "(string \<Rightarrow> real list option) \<Rightarrow> int \<Rightarrow> string list \<Rightarrow>
    (string \<times> real) list \<Rightarrow> error + (string \<times> real) list" where
  "momentum_scores h lb [] acc = Inr acc"
| "momentum_scores h lb (i # rest) acc =
     (case h i of
        None \<Rightarrow> Inl KeyError
      | Some ps \<Rightarrow>
          (case momentum ps lb of
             Inl e \<Rightarrow> Inl e
           | Inr m \<Rightarrow> momentum_scores h lb rest (AList.update i m acc)))"

text \<open>
  \<open>sorted(momentum_scores.items(), key=lambda item: item[1], reverse=True)\<close>. Python's
  sort is stable, and with \<open>reverse=True\<close> it reverses the list, sorts it stably in
  ascending order and reverses the result.
\<close>

definition ranked_instruments :: "(string \<times> real) list \<Rightarrow> (string \<times> real) list" where
  "ranked_instruments scores = rev (sort_key snd (rev scores))"

definition longs_of :: "int \<Rightarrow> (string \<times> real) list \<Rightarrow> string list" where
  "longs_of K ranked = map fst (py_slice_to K ranked)"

definition shorts_of :: "int \<Rightarrow> (string \<times> real) list \<Rightarrow> string list" where
  "shorts_of K ranked = map fst (py_slice_from (- K) ranked)"

definition flats_of :: "string list \<Rightarrow> string list \<Rightarrow> string list \<Rightarrow> string list" where
  "flats_of universe longs shorts =
     filter (\<lambda>i. i \<notin> set longs \<and> i \<notin> set shorts) universe"

text \<open>
  One of the two loops that place the long and the short orders. The orders sent before
  an exception stay sent.
\<close>

fun send_targets :: "(string \<Rightarrow> real list option) \<Rightarrow> real \<Rightarrow> bool \<Rightarrow> string list \<Rightarrow>
    effect list \<times> error option" where
  "send_targets h c short [] = ([], None)"
| "send_targets h c short (i # rest) =
     (case h i of
        None \<Rightarrow> ([], Some KeyError)
      | Some ps \<Rightarrow>
          (case py_index ps (- 1) of
             Inl e \<Rightarrow> ([], Some e)
           | Inr last_price \<Rightarrow>
               if last_price = 0 then ([], Some ZeroDivisionError)
               else
                 (case send_targets h c short rest of
                    (es, err) \<Rightarrow>
                      (SendOrder i (if short then - (c / last_price) else c / last_price)
                         ''MKT'' 0 ''TARGET_SHARES'' # es, err))))"

text \<open>
  Everything after the counter is reset. \<open>pv\<close> is what the platform answers to
  \<open>getPortfolio().getPortfolioValue()\<close>.
\<close>

definition rebalance :: "real \<Rightarrow> algo_state \<Rightarrow> effect list \<times> error option" where
  "rebalance pv s =
     (case check_history (historical_data s) (lookback_period s) (instrument_list s) of
        Inl e \<Rightarrow> ([], Some e)
      | Inr (Some (i, n)) \<Rightarrow> ([Log (NotEnoughData i n)], None)
      | Inr None \<Rightarrow>
          (case momentum_scores (historical_data s) (lookback_period s) (instrument_list s) [] of
             Inl e \<Rightarrow> ([], Some e)
           | Inr scores \<Rightarrow>
               (let ranked = ranked_instruments scores;
                    longs = longs_of (hold_N_assets s) ranked;
                    shorts = shorts_of (hold_N_assets s) ranked;
                    flats = flats_of (instrument_list s) longs shorts;
                    logs = [Log (TopPerformers longs), Log (BottomPerformers shorts),
                            Log (ClosingPositions flats)];
                    num_positions = length longs + length shorts
                in if num_positions = 0 then (logs, None)
                   else
                     (let capital_per_position = pv / real num_positions;
                          closing = map (\<lambda>i. SendOrder i 0 ''MKT'' 0 ''TARGET_SHARES'') flats
                      in case send_targets (historical_data s) capital_per_position False longs of
                           (ls, Some e) \<Rightarrow> (logs @ closing @ ls, Some e)
                         | (ls, None) \<Rightarrow>
                             (case send_targets (historical_data s) capital_per_position True shorts of
                                (ss, err) \<Rightarrow> (logs @ closing @ ls @ ss, err))))))"

text \<open>
  \<open>on_marketdatafeed\<close>: the new state, what was logged and sent, and the exception
  raised, if any. The state keeps what was assigned before an exception.
\<close>

definition on_marketdatafeed :: "real \<Rightarrow> algo_state \<Rightarrow> market_data \<Rightarrow>
    algo_state \<times> effect list \<times> error option" where
  "on_marketdatafeed pv s md =
     (let s1 = (case historical_data s (instrument md) of
                  None \<Rightarrow> s
                | Some ps \<Rightarrow>
                    s\<lparr>historical_data := (historical_data s)(instrument md \<mapsto> ps @ [close md])\<rparr>)
      in case instrument_list s1 of
           [] \<Rightarrow> (s1, [], Some IndexError)
         | first # _ \<Rightarrow>
             (let s2 = (if instrument md = first
                        then s1\<lparr>rebalance_counter := rebalance_counter s1 + 1\<rparr> else s1)
              in if rebalance_counter s2 < rebalance_period s2 then (s2, [], None)
                 else
                   (let s3 = s2\<lparr>rebalance_counter := 0\<rparr>
                    in case rebalance pv s3 of
                         (effs, err) \<Rightarrow> (s3, Log RebalancingDay # effs, err))))"

section \<open>backtest_analysis.py: performance metrics\<close>

text \<open>
  A pandas series of floats is a list of reals. Dividing by zero does not raise there:
  \<open>0/0\<close> is NaN, which is \<open>None\<close> here. In \<open>calculate_max_drawdown\<close> the numerator is
  0 whenever the divisor, the running maximum, is 0 (lemma \<open>running_max_zero\<close> below),
  so no infinity arises.
\<close>

fun cumprod_from :: "real \<Rightarrow> real list \<Rightarrow> real list" where
  "cumprod_from acc [] = []"
| "cumprod_from acc (x # xs) = (acc * x) # cumprod_from (acc * x) xs"

definition cumprod :: "real list \<Rightarrow> real list" where
  "cumprod xs = cumprod_from 1 xs"

fun expanding_max_from :: "real \<Rightarrow> real list \<Rightarrow> real list" where
  "expanding_max_from m [] = []"
| "expanding_max_from m (x # xs) = max m x # expanding_max_from (max m x) xs"

definition expanding_max :: "real list \<Rightarrow> real list" where
  "expanding_max xs = (case xs of [] \<Rightarrow> [] | x # rest \<Rightarrow> x # expanding_max_from x rest)"

definition np_div :: "real \<Rightarrow> real \<Rightarrow> real option" where
  "np_div a b = (if b = 0 then None else Some (a / b))"

text \<open>\<open>Series.min()\<close> skips NaN; it is NaN when nothing is left.\<close>

definition series_min :: "real option list \<Rightarrow> real option" where
  "series_min xs =
     (case List.map_filter id xs of
        [] \<Rightarrow> None
      | v # vs \<Rightarrow> Some (fold min vs v))"

definition cumulative :: "real list \<Rightarrow> real list" where
  "cumulative returns = cumprod (map (\<lambda>r. 1 + r) returns)"

definition drawdown :: "real list \<Rightarrow> real option list" where
  "drawdown returns =
     map (\<lambda>(c, m). np_div (c - m) m)
       (zip (cumulative returns) (expanding_max (cumulative returns)))"

definition calculate_max_drawdown :: "real list \<Rightarrow> real option" where
  "calculate_max_drawdown returns = series_min (drawdown returns)"

text \<open>
  The entries of the dictionary that \<open>calculate_performance_metrics\<close> returns, for a
  series that is not empty. \<open>x ** y\<close> with a negative \<open>x\<close> is NaN unless \<open>y\<close> is a
  whole number; the exponent \<open>252 / len(returns)\<close> is positive.
\<close>

definition total_return :: "real list \<Rightarrow> real" where
  "total_return returns = prod_list (map (\<lambda>r. r + 1) returns) - 1"

definition np_power :: "real \<Rightarrow> real \<Rightarrow> real option" where
  "np_power x y =
     (if 0 \<le> x then Some (x powr y)
      else if frac y = 0 then Some ((if even \<lfloor>y\<rfloor> then 1 else - 1) * ((- x) powr y))
      else None)"

definition annualized_return :: "real list \<Rightarrow> real option" where
  "annualized_return returns =
     map_option (\<lambda>p. p - 1)
       (np_power (prod_list (map (\<lambda>r. r + 1) returns)) (252 / real (length returns)))"

definition mean :: "real list \<Rightarrow> real" where
  "mean returns = sum_list returns / real (length returns)"

definition win_rate :: "real list \<Rightarrow> real" where
  "win_rate returns = real (length (filter (\<lambda>r. 0 < r) returns)) / real (length returns)"

text \<open>
  \<open>(returns.mean() * 252) / abs(max_drawdown) if max_drawdown != 0 else 0\<close>: NaN differs
  from 0, and a quotient by NaN is NaN.
\<close>

definition calmar_ratio :: "real list \<Rightarrow> real option" where
  "calmar_ratio returns =
     (case calculate_max_drawdown returns of
        None \<Rightarrow> None
      | Some d \<Rightarrow> if d \<noteq> 0 then Some (mean returns * 252 / \<bar>d\<bar>) else Some 0)"

record metrics =
  Total_Return :: real
  Annualized_Return :: "real option"
  Max_Drawdown :: "real option"
  Win_Rate :: real
  Calmar_Ratio :: "real option"

text \<open>
  \<open>calculate_performance_metrics\<close> without a benchmark; the empty dictionary it returns
  for an empty series is \<open>None\<close>. The entries that need the standard deviation or the
  mean of a sub-series are left out.
\<close>

definition calculate_performance_metrics :: "real list \<Rightarrow> metrics option" where
  "calculate_performance_metrics returns =
     (if length returns = 0 then None
      else Some \<lparr> Total_Return = total_return returns,
                  Annualized_Return = annualized_return returns,
                  Max_Drawdown = calculate_max_drawdown returns,
                  Win_Rate = win_rate returns,
                  Calmar_Ratio = calmar_ratio returns \<rparr>)"

section \<open>The platform around the engine\<close>

text \<open>
  The platform calls \<open>on_marketdatafeed\<close> once per tick, in the order of the feed; a
  tick comes with the portfolio value the platform would report during the call. \<open>run\<close>
  lists what each call returns. The state after a call is the state of the next one.
\<close>

fun run :: "algo_state \<Rightarrow> (real \<times> market_data) list \<Rightarrow>
    (algo_state \<times> effect list \<times> error option) list" where
  "run s [] = []"
| "run s (t # ticks) =
     on_marketdatafeed (fst t) s (snd t) # run (fst (on_marketdatafeed (fst t) s (snd t))) ticks"

text \<open>A call ran the rebalancing day logic when it logged the rebalancing day.\<close>

definition fired :: "algo_state \<times> effect list \<times> error option \<Rightarrow> bool" where
  "fired r = (Log RebalancingDay \<in> set (fst (snd r)))"

text \<open>The states of an engine that was constructed and then only driven by its handlers.\<close>

inductive reachable :: "algo_state \<Rightarrow> bool" where
  constructed: "reachable AlgoEvent_init"
| started: "reachable s \<Longrightarrow> reachable (fst (start s))"
| bulk: "reachable s \<Longrightarrow> reachable (fst (on_bulkdatafeed isSync bd s))"
| tick: "reachable s \<Longrightarrow> reachable (fst (on_marketdatafeed pv s md))"

text \<open>
  The instrument of an order, and \<open>|target_quantity * last_price|\<close> of an order, the last
  price being the newest one of the instrument's history.
\<close>

fun order_instrument :: "effect \<Rightarrow> string option" where
  "order_instrument (SendOrder i q t p m) = Some i"
| "order_instrument (Log l) = None"


text \<open>
  An engine set up by hand for the examples below: three instruments, lookback 2, hold
  count 1. The momentum scores are \<open>4/2 - 1 = 1\<close> for \<open>A\<close>, \<open>4/4 - 1 = 0\<close> for \<open>B\<close>
  and \<open>2/4 - 1 = -1/2\<close> for \<open>C\<close>.
\<close>

definition three_instrument_engine :: algo_state where
  "three_instrument_engine =
     \<lparr> instrument_list = [''A'', ''B'', ''C''], lookback_period = 2, rebalance_period = 1,
       hold_N_assets = 1, rebalance_counter = 0,
       historical_data = [''A'' \<mapsto> [2, 4], ''B'' \<mapsto> [4, 4], ''C'' \<mapsto> [4, 2]] \<rparr>"

section \<open>Facts about the performance metrics\<close>

lemma running_max_zero_from:
  "acc \<le> m \<Longrightarrow> (m = 0 \<Longrightarrow> acc = 0) \<Longrightarrow>
   (c, M) \<in> set (zip (cumprod_from acc xs) (expanding_max_from m (cumprod_from acc xs))) \<Longrightarrow>
   M = 0 \<Longrightarrow> c = 0"
proof (induction xs arbitrary: acc m)
  case Nil
  then show ?case by simp
next
  case (Cons x xs)
  have step: "acc * x \<le> max m (acc * x)" "max m (acc * x) = 0 \<Longrightarrow> acc * x = 0"
    using Cons.prems(1,2) by (auto simp: max_def split: if_splits)
  from Cons.prems(3) consider "c = acc * x" "M = max m (acc * x)"
    | "(c, M) \<in> set (zip (cumprod_from (acc * x) xs)
                 (expanding_max_from (max m (acc * x)) (cumprod_from (acc * x) xs)))"
    by auto
  then show ?case
  proof cases
    case 1
    with step(2) Cons.prems(4) show ?thesis by simp
  next
    case 2
    from Cons.IH[OF step(1) step(2) 2 Cons.prems(4)] show ?thesis by simp
  qed
qed

lemma running_max_zero:
  assumes "(c, M) \<in> set (zip (cumulative returns) (expanding_max (cumulative returns)))"
    and "M = 0"
  shows "c = 0"
proof (cases returns)
  case Nil
  with assms show ?thesis by (simp add: cumulative_def cumprod_def expanding_max_def)
next
  case (Cons r rs)
  with assms(1) consider "c = 1 + r" "M = 1 + r"
    | "(c, M) \<in> set (zip (cumprod_from (1 + r) (map (\<lambda>r. 1 + r) rs))
         (expanding_max_from (1 + r) (cumprod_from (1 + r) (map (\<lambda>r. 1 + r) rs))))"
    by (auto simp: cumulative_def cumprod_def expanding_max_def)
  then show ?thesis
  proof cases
    case 1
    with assms(2) show ?thesis by simp
  next
    case 2
    then show ?thesis using assms(2) running_max_zero_from[of "1 + r" "1 + r"] by blast
  qed
qed

text \<open>
  The drawdowns after a positive running maximum \<open>m\<close>: all are numbers, none is
  positive, and all are 0 exactly when the cumulative values never fall below the
  maximum so far.
\<close>

lemma drawdown_after_positive_max:
  "0 < m \<Longrightarrow>
   \<exists>vs. map (\<lambda>(c, M). np_div (c - M) M) (zip xs (expanding_max_from m xs)) = map Some vs \<and>
     (\<forall>v\<in>set vs. v \<le> 0) \<and> ((\<forall>v\<in>set vs. v = 0) \<longleftrightarrow> sorted (m # xs))"
proof (induction xs arbitrary: m)
  case Nil
  then show ?case by simp
next
  case (Cons x xs)
  let ?M = "max m x"
  let ?v = "(x - ?M) / ?M"
  have M: "0 < ?M" using Cons.prems by simp
  from Cons.IH[OF M] obtain vs where
    vs: "map (\<lambda>(c, M). np_div (c - M) M) (zip xs (expanding_max_from ?M xs)) = map Some vs"
      "\<forall>v\<in>set vs. v \<le> 0" "(\<forall>v\<in>set vs. v = 0) \<longleftrightarrow> sorted (?M # xs)"
    by blast
  have eq: "map (\<lambda>(c, M). np_div (c - M) M) (zip (x # xs) (expanding_max_from m (x # xs)))
      = map Some (?v # vs)"
    using M vs(1) by (simp add: np_div_def)
  have le: "?v \<le> 0" using M by (simp add: divide_le_0_iff)
  have z: "?v = 0 \<longleftrightarrow> m \<le> x" using M by (auto simp: max_def)
  have "(?v = 0 \<and> sorted (?M # xs)) \<longleftrightarrow> sorted (m # x # xs)"
    unfolding z by (auto simp: max_def)
  with vs(2,3) le eq show ?case
    by (intro exI[of _ "?v # vs"]) auto
qed

lemma series_min_Some: "series_min (map Some (v # vs)) = Some (Min (insert v (set vs)))"
proof -
  have "List.map_filter id (map Some (v # vs)) = v # vs"
    by (simp add: List.map_filter_def comp_def)
  then show ?thesis
    by (simp add: series_min_def Min.set_eq_fold[symmetric])
qed

lemma max_drawdown_positive_start:
  assumes "returns \<noteq> []" and "- 1 < hd returns"
  shows "\<exists>d. calculate_max_drawdown returns = Some d \<and> d \<le> 0 \<and>
           (d = 0 \<longleftrightarrow> sorted (cumulative returns))"
proof -
  from assms obtain r rs where r: "returns = r # rs" "- 1 < r"
    by (cases returns) auto
  define c where "c = 1 + r"
  define cs where "cs = cumprod_from c (map (\<lambda>r. 1 + r) rs)"
  have c: "0 < c" using r by (simp add: c_def)
  have cum: "cumulative returns = c # cs"
    by (simp add: cumulative_def cumprod_def r c_def cs_def)
  from drawdown_after_positive_max[OF c, of cs] obtain vs where
    vs: "map (\<lambda>(c, M). np_div (c - M) M) (zip cs (expanding_max_from c cs)) = map Some vs"
      "\<forall>v\<in>set vs. v \<le> 0" "(\<forall>v\<in>set vs. v = 0) \<longleftrightarrow> sorted (c # cs)"
    by blast
  have dd: "drawdown returns = map Some (0 # vs)"
    using c vs(1) by (simp add: drawdown_def cum expanding_max_def np_div_def)
  have md: "calculate_max_drawdown returns = Some (Min (insert 0 (set vs)))"
    by (simp add: calculate_max_drawdown_def dd series_min_Some del: list.map)
  have le: "Min (insert 0 (set vs)) \<le> 0" by (simp add: Min_le_iff)
  have "Min (insert 0 (set vs)) = 0 \<longleftrightarrow> (\<forall>v\<in>set vs. v = 0)"
  proof
    assume m: "Min (insert 0 (set vs)) = 0"
    show "\<forall>v\<in>set vs. v = 0"
    proof
      fix v assume v: "v \<in> set vs"
      then have "Min (insert 0 (set vs)) \<le> v" by (intro Min_le) auto
      with m vs(2) v show "v = 0" by force
    qed
  next
    assume "\<forall>v\<in>set vs. v = 0"
    then have "insert 0 (set vs) = {0}" by auto
    then show "Min (insert 0 (set vs)) = 0" by (simp only: Min_singleton)
  qed
  with md le vs(3) cum show ?thesis by simp
qed

text \<open>
  C5, as the specification states it, at the series \<open>[1, -1/2]\<close> (a gain of 100 percent,
  then a loss of 50 percent): the annualized return \<open>(2 * 1/2) ^ (252/2) - 1\<close> is 0 and the
  max drawdown is \<open>-1/2\<close>, so annualized return over the absolute max drawdown is 0; the
  Calmar ratio the code computes is \<open>(1/4 * 252) / (1/2) = 126\<close>.
\<close>

theorem calmar_not_annualized_counterexample:
  "calculate_performance_metrics [1, - 1 / 2] =
     Some \<lparr> Total_Return = 0, Annualized_Return = Some 0, Max_Drawdown = Some (- 1 / 2),
            Win_Rate = 1 / 2, Calmar_Ratio = Some 126 \<rparr>"
  by (simp add: calculate_performance_metrics_def total_return_def annualized_return_def
      np_power_def calculate_max_drawdown_def drawdown_def cumulative_def cumprod_def
      expanding_max_def np_div_def series_min_def win_rate_def
      calmar_ratio_def mean_def)

text \<open>
  C5, amended: for every return series that is not empty and whose max drawdown is a
  number \<open>d\<close>, the Calmar ratio of the metrics is the arithmetic mean of the returns
  times 252, divided by \<open>|d|\<close>, when \<open>d\<close> is not 0, and it is 0 when \<open>d\<close> is 0.
\<close>

theorem calmar_ratio_mean_over_drawdown:
  assumes "returns \<noteq> []"
    and "calculate_performance_metrics returns = Some m"
    and "Max_Drawdown m = Some d"
  shows "(d \<noteq> 0 \<longrightarrow>
            Calmar_Ratio m = Some (sum_list returns / real (length returns) * 252 / \<bar>d\<bar>)) \<and>
         (d = 0 \<longrightarrow> Calmar_Ratio m = Some 0)"
  using assms
  by (auto simp: calculate_performance_metrics_def calmar_ratio_def mean_def
      split: if_splits)

theorem calmar_ratio_mean_over_drawdown_witness:
  "Calmar_Ratio \<lparr> Total_Return = 0, Annualized_Return = Some 0, Max_Drawdown = Some (- 1 / 2),
       Win_Rate = 1 / 2, Calmar_Ratio = Some 126 \<rparr>
     = Some (sum_list [1, - 1 / 2] / real (length [1, - 1 / 2 :: real]) * 252 / \<bar>- 1 / 2\<bar>)"
proof -
  have m: "calculate_performance_metrics [1, - 1 / 2] =
     Some \<lparr> Total_Return = 0, Annualized_Return = Some 0, Max_Drawdown = Some (- 1 / 2),
            Win_Rate = 1 / 2, Calmar_Ratio = Some 126 \<rparr>"
    by (simp add: calculate_performance_metrics_def total_return_def annualized_return_def
        np_power_def calculate_max_drawdown_def drawdown_def cumulative_def cumprod_def
        expanding_max_def np_div_def series_min_def win_rate_def
        calmar_ratio_def mean_def)
  have ne: "[1, - 1 / 2 :: real] \<noteq> []" by simp
  have d: "(- 1 / 2 :: real) \<noteq> 0" by simp
  from calmar_ratio_mean_over_drawdown[OF ne m, of "- 1 / 2"] d show ?thesis
    by simp
qed

text \<open>
  C6, as the specification states it, at the series \<open>[-2, 1/2]\<close>: the cumulative values
  are \<open>-1, -3/2\<close>, a falling path, the running maximum stays \<open>-1\<close>, the drawdowns are
  \<open>0\<close> and \<open>(-3/2 + 1) / (-1) = 1/2\<close>, and their minimum, the max drawdown, is 0.
\<close>

theorem max_drawdown_zero_counterexample:
  "calculate_max_drawdown [- 2, 1 / 2] = Some 0 \<and> \<not> sorted (cumulative [- 2, 1 / 2])"
  by (simp add: calculate_max_drawdown_def drawdown_def cumulative_def cumprod_def
      expanding_max_def np_div_def series_min_def)

text \<open>
  C6, amended: for every return series that is not empty and whose first return is above
  \<open>-1\<close> (so the path starts positive), the max drawdown is a number, it is at most 0,
  and it is 0 exactly when the cumulative-return path never decreases.
\<close>

theorem max_drawdown_nonpositive:
  assumes "returns \<noteq> []" and "- 1 < hd returns"
  shows "\<exists>d. calculate_max_drawdown returns = Some d \<and> d \<le> 0 \<and>
           (d = 0 \<longleftrightarrow> sorted (cumulative returns))"
  using assms by (rule max_drawdown_positive_start)

theorem max_drawdown_nonpositive_witness:
  "\<exists>d. calculate_max_drawdown [1, - 1 / 2] = Some d \<and> d \<le> 0 \<and>
     (d = 0 \<longleftrightarrow> sorted (cumulative [1, - 1 / 2]))"
proof -
  have "[1, - 1 / 2 :: real] \<noteq> []" and "- 1 < hd [1, - 1 / 2 :: real]" by simp_all
  then show ?thesis by (rule max_drawdown_nonpositive)
qed

section \<open>Facts about the market-data handler\<close>

lemma tick_config:
  "instrument_list (fst (on_marketdatafeed pv s md)) = instrument_list s \<and>
   lookback_period (fst (on_marketdatafeed pv s md)) = lookback_period s \<and>
   rebalance_period (fst (on_marketdatafeed pv s md)) = rebalance_period s \<and>
   hold_N_assets (fst (on_marketdatafeed pv s md)) = hold_N_assets s"
  by (auto simp: on_marketdatafeed_def Let_def split: option.splits list.splits prod.splits)

lemma tick_dom:
  "dom (historical_data (fst (on_marketdatafeed pv s md))) = dom (historical_data s)"
  by (auto simp: on_marketdatafeed_def Let_def split: option.splits list.splits prod.splits if_splits)

lemma tick_history:
  "historical_data (fst (on_marketdatafeed pv s md)) =
     (case historical_data s (instrument md) of
        None \<Rightarrow> historical_data s
      | Some ps \<Rightarrow> (historical_data s)(instrument md \<mapsto> ps @ [close md]))"
  by (auto simp: on_marketdatafeed_def Let_def split: option.splits list.splits prod.splits if_splits)

lemma tick_counter:
  assumes "instrument_list s = first # rest"
  shows "rebalance_counter (fst (on_marketdatafeed pv s md)) =
     (if instrument md = first
      then (if rebalance_counter s + 1 < rebalance_period s then rebalance_counter s + 1 else 0)
      else (if rebalance_counter s < rebalance_period s then rebalance_counter s else 0))"
  using assms
  by (auto simp: on_marketdatafeed_def Let_def split: option.splits list.splits prod.splits)

lemma tick_fired:
  assumes "instrument_list s = first # rest"
  shows "fired (on_marketdatafeed pv s md) \<longleftrightarrow>
     \<not> rebalance_counter s + (if instrument md = first then 1 else 0) < rebalance_period s"
  using assms
  by (auto simp: fired_def on_marketdatafeed_def Let_def split: option.splits list.splits prod.splits)

lemma foreign_tick_unchanged:
  assumes "instrument_list s \<noteq> []"
    and "dom (historical_data s) \<subseteq> set (instrument_list s)"
    and "rebalance_counter s < rebalance_period s"
    and "instrument md \<notin> set (instrument_list s)"
  shows "on_marketdatafeed pv s md = (s, [], None)"
proof -
  from assms(1) obtain first rest where u: "instrument_list s = first # rest"
    by (cases "instrument_list s") auto
  from assms(2,4) have "historical_data s (instrument md) = None" by (auto simp: dom_def)
  moreover from assms(4) u have "instrument md \<noteq> first" by auto
  ultimately show ?thesis using u assms(3)
    by (simp add: on_marketdatafeed_def)
qed

lemma rebalance_fires_once_per_period_aux:
  assumes "instrument_list s = first # rest"
    and "0 \<le> rebalance_counter s" and "rebalance_counter s < rebalance_period s"
  shows "int (length (filter fired (run s ticks))) =
           (rebalance_counter s + int (length (filter (\<lambda>t. instrument (snd t) = first) ticks)))
             div rebalance_period s \<and>
         (\<forall>k < length ticks. fired (run s ticks ! k) \<longrightarrow> instrument (snd (ticks ! k)) = first)"
  using assms
proof (induction ticks arbitrary: s)
  case Nil
  then show ?case by simp
next
  case (Cons t ticks)
  let ?r = "on_marketdatafeed (fst t) s (snd t)"
  let ?s = "fst ?r"
  let ?c = "rebalance_counter s"
  let ?p = "rebalance_period s"
  let ?n = "int (length (filter (\<lambda>t. instrument (snd t) = first) ticks))"
  have u: "instrument_list ?s = first # rest" and p: "rebalance_period ?s = ?p"
    using tick_config[of "fst t" s "snd t"] Cons.prems(1) by simp_all
  have c: "rebalance_counter ?s =
     (if instrument (snd t) = first then (if ?c + 1 < ?p then ?c + 1 else 0) else ?c)"
    using tick_counter[OF Cons.prems(1), of "fst t" "snd t"] Cons.prems(3) by simp
  have f: "fired ?r \<longleftrightarrow> instrument (snd t) = first \<and> ?c + 1 = ?p"
    using tick_fired[OF Cons.prems(1), of "fst t" "snd t"] Cons.prems(3) by auto
  have inv: "0 \<le> rebalance_counter ?s" "rebalance_counter ?s < rebalance_period ?s"
    using c p Cons.prems(2,3) by (auto split: if_splits)
  note IH = Cons.IH[OF u inv]
  have count: "int (length (filter fired (run s (t # ticks)))) =
      (?c + int (length (filter (\<lambda>t. instrument (snd t) = first) (t # ticks)))) div ?p"
  proof (cases "instrument (snd t) = first")
    case False
    with f c IH p show ?thesis by simp
  next
    case True
    show ?thesis
    proof (cases "?c + 1 = ?p")
      case full: True
      have "?c + (1 + ?n) = ?p + ?n" using full by linarith
      then have "(?c + (1 + ?n)) div ?p = (?p + ?n) div ?p" by (simp only:)
      also have "\<dots> = 1 + ?n div ?p" using Cons.prems(2) full by simp
      finally show ?thesis using True full f c IH p by simp
    next
      case notfull: False
      then have "?c + 1 < ?p" using Cons.prems(3) by simp
      with True notfull f c IH p show ?thesis by (simp add: algebra_simps)
    qed
  qed
  have only: "\<forall>k < length (t # ticks). fired (run s (t # ticks) ! k) \<longrightarrow>
      instrument (snd ((t # ticks) ! k)) = first"
  proof (intro allI impI)
    fix k assume "k < length (t # ticks)" "fired (run s (t # ticks) ! k)"
    then show "instrument (snd ((t # ticks) ! k)) = first"
      using f IH by (cases k) auto
  qed
  from count only show ?case by blast
qed

lemma start_history:
  "historical_data (fst (start s)) i =
     (if i \<in> set (instrument_list s) then Some [] else historical_data s i)"
proof -
  have "fold (\<lambda>i h. h(i \<mapsto> [])) xs h i = (if i \<in> set xs then Some [] else h i)"
    for xs and h :: "string \<Rightarrow> real list option"
    by (induction xs arbitrary: h) auto
  then show ?thesis by (simp add: start_def)
qed

lemma append_bars_dom: "append_bars h i cs = (h', e) \<Longrightarrow> dom h' = dom h"
  by (induction h i cs rule: append_bars.induct) (auto split: option.splits)

lemma bulk_loop_dom: "bulk_loop bd h xs = (h', e) \<Longrightarrow> dom h' = dom h"
proof (induction bd h xs rule: bulk_loop.induct)
  case (1 bd h)
  then show ?case by simp
next
  case (2 bd h i rest)
  then show ?case
    by (auto split: option.splits prod.splits dest!: append_bars_dom)
qed

lemma bulk_config:
  "instrument_list (fst (on_bulkdatafeed b bd s)) = instrument_list s \<and>
   lookback_period (fst (on_bulkdatafeed b bd s)) = lookback_period s \<and>
   rebalance_period (fst (on_bulkdatafeed b bd s)) = rebalance_period s \<and>
   hold_N_assets (fst (on_bulkdatafeed b bd s)) = hold_N_assets s \<and>
   rebalance_counter (fst (on_bulkdatafeed b bd s)) = rebalance_counter s"
  by (auto simp: on_bulkdatafeed_def split: prod.splits option.splits)

lemma bulk_dom: "dom (historical_data (fst (on_bulkdatafeed b bd s))) = dom (historical_data s)"
  by (auto simp: on_bulkdatafeed_def split: prod.splits option.splits dest!: bulk_loop_dom)

lemma reachable_config:
  "reachable s \<Longrightarrow>
     instrument_list s = [''SPY'', ''QQQ'', ''IWM'', ''EFA'', ''EEM'', ''GLD'', ''USO''] \<and>
     lookback_period s = 120 \<and> rebalance_period s = 20 \<and> hold_N_assets s = 2 \<and>
     0 \<le> rebalance_counter s \<and> rebalance_counter s < 20"
proof (induction rule: reachable.induct)
  case constructed
  then show ?case by (simp add: AlgoEvent_init_def)
next
  case (started s)
  then show ?case by (simp add: start_def)
next
  case (bulk s isSync bd)
  then show ?case using bulk_config[of isSync bd s] by simp
next
  case (tick s pv md)
  then show ?case
    using tick_config[of pv s md]
      tick_counter[of s "''SPY''" "[''QQQ'', ''IWM'', ''EFA'', ''EEM'', ''GLD'', ''USO'']" pv md]
    by (auto split: if_splits)
qed

lemma reachable_histories:
  "reachable s \<Longrightarrow> dom (historical_data s) \<subseteq> set (instrument_list s)"
proof (induction rule: reachable.induct)
  case constructed
  then show ?case by (simp add: AlgoEvent_init_def)
next
  case (started s)
  then show ?case
    by (auto simp: dom_def start_history) (auto simp: start_def)
next
  case (bulk s isSync bd)
  then show ?case using bulk_config[of isSync bd s] bulk_dom[of isSync bd s] by simp
next
  case (tick s pv md)
  then show ?case using tick_config[of pv s md] tick_dom[of pv s md] by simp
qed

text \<open>
  C8: from a state whose universe starts with the reference instrument \<open>first\<close> and
  whose counter \<open>c\<close> is in \<open>0 \<le> c < rebalance_period\<close> (every state the engine
  reaches is such a state, lemma \<open>reachable_config\<close>), over every sequence of ticks:
  the number of calls that run the rebalancing day logic is \<open>(c + n) div rebalance_period\<close>,
  where \<open>n\<close> counts the ticks of the reference instrument only, so it is once per
  \<open>rebalance_period\<close> of them however many other ticks lie between; and every call
  that runs it is a tick of the reference instrument.
\<close>

theorem rebalance_fires_once_per_period:
  assumes "instrument_list s = first # rest"
    and "0 \<le> rebalance_counter s" and "rebalance_counter s < rebalance_period s"
  shows "int (length (filter fired (run s ticks))) =
           (rebalance_counter s + int (length (filter (\<lambda>t. instrument (snd t) = first) ticks)))
             div rebalance_period s \<and>
         (\<forall>k < length ticks. fired (run s ticks ! k) \<longrightarrow> instrument (snd (ticks ! k)) = first)"
  using assms by (rule rebalance_fires_once_per_period_aux)

theorem rebalance_fires_once_per_period_witness:
  "length (filter fired
     (run (fst (start (AlgoEvent_init\<lparr>rebalance_period := 2\<rparr>)))
        [(100000, \<lparr>instrument = ''SPY'', close = 10\<rparr>),
         (100000, \<lparr>instrument = ''QQQ'', close = 20\<rparr>),
         (100000, \<lparr>instrument = ''QQQ'', close = 21\<rparr>),
         (100000, \<lparr>instrument = ''SPY'', close = 11\<rparr>),
         (100000, \<lparr>instrument = ''SPY'', close = 12\<rparr>)])) = 1"
proof -
  let ?s = "fst (start (AlgoEvent_init\<lparr>rebalance_period := 2\<rparr>))"
  let ?ticks = "[(100000, \<lparr>instrument = ''SPY'', close = 10\<rparr>),
         (100000, \<lparr>instrument = ''QQQ'', close = 20\<rparr>),
         (100000, \<lparr>instrument = ''QQQ'', close = 21\<rparr>),
         (100000, \<lparr>instrument = ''SPY'', close = 11\<rparr>),
         (100000::real, \<lparr>instrument = ''SPY'', close = 12\<rparr>)]"
  have u: "instrument_list ?s = ''SPY'' # [''QQQ'', ''IWM'', ''EFA'', ''EEM'', ''GLD'', ''USO'']"
    by (simp add: start_def AlgoEvent_init_def)
  have c: "0 \<le> rebalance_counter ?s" "rebalance_counter ?s < rebalance_period ?s"
    by (simp_all add: start_def AlgoEvent_init_def)
  have "int (length (filter fired (run ?s ?ticks))) =
      (rebalance_counter ?s + int (length (filter (\<lambda>t. instrument (snd t) = ''SPY'') ?ticks)))
        div rebalance_period ?s"
    using rebalance_fires_once_per_period[OF u c, of ?ticks] by (rule conjunct1)
  also have "\<dots> = 1" by (simp add: start_def AlgoEvent_init_def)
  finally show ?thesis by simp
qed

text \<open>
  C10: a tick of an instrument outside the universe returns the state as it was, logs
  nothing, sends nothing and raises nothing. The three hypotheses on the state hold in
  every state the engine reaches (lemmas \<open>reachable_config\<close>, \<open>reachable_histories\<close>):
  the universe is not empty, only instruments of the universe have a history, and the
  counter is below the rebalance period.
\<close>

theorem foreign_instrument_tick_is_noop:
  assumes "instrument_list s \<noteq> []"
    and "dom (historical_data s) \<subseteq> set (instrument_list s)"
    and "rebalance_counter s < rebalance_period s"
    and "instrument md \<notin> set (instrument_list s)"
  shows "on_marketdatafeed pv s md = (s, [], None)"
  using assms by (rule foreign_tick_unchanged)

theorem foreign_instrument_tick_is_noop_witness:
  "on_marketdatafeed 100000 (fst (start AlgoEvent_init)) \<lparr>instrument = ''AAPL'', close = 150\<rparr>
     = (fst (start AlgoEvent_init), [], None)"
proof -
  let ?s = "fst (start AlgoEvent_init)"
  have r: "reachable ?s" by (intro reachable.started reachable.constructed)
  have 1: "instrument_list ?s \<noteq> []" using reachable_config[OF r] by simp
  have 2: "dom (historical_data ?s) \<subseteq> set (instrument_list ?s)" by (rule reachable_histories[OF r])
  have 3: "rebalance_counter ?s < rebalance_period ?s" using reachable_config[OF r] by simp
  have 4: "instrument \<lparr>instrument = ''AAPL'', close = 150\<rparr> \<notin> set (instrument_list ?s)"
    using reachable_config[OF r] by simp
  show ?thesis by (rule foreign_instrument_tick_is_noop[OF 1 2 3 4])
qed



section \<open>Facts about the rebalancing day logic\<close>

lemma check_history_short:
  assumes "i \<in> set U" and "h i = Some ps" and "int (length ps) < lb"
  shows "check_history h lb U \<noteq> Inr None \<and>
         (set U \<subseteq> dom h \<longrightarrow> (\<exists>j n. check_history h lb U = Inr (Some (j, n))))"
  using assms
proof (induction U)
  case Nil
  then show ?case by simp
next
  case (Cons a U)
  then show ?case by (cases "h a") (auto split: if_splits)
qed

lemma rebalance_short_history:
  assumes "i \<in> set (instrument_list s)" and "historical_data s i = Some ps"
    and "int (length ps) < lookback_period s"
  shows "(\<forall>j q t p m. SendOrder j q t p m \<notin> set (fst (rebalance pv s))) \<and>
         (set (instrument_list s) \<subseteq> dom (historical_data s) \<longrightarrow>
            (\<exists>j n. rebalance pv s = ([Log (NotEnoughData j n)], None)))"
proof -
  note chk = check_history_short[of i "instrument_list s" "historical_data s" ps
      "lookback_period s", OF assms]
  show ?thesis
  proof (cases "check_history (historical_data s) (lookback_period s) (instrument_list s)")
    case (Inl e)
    with chk show ?thesis by (auto simp: rebalance_def)
  next
    case (Inr r)
    with chk obtain j n where "r = Some (j, n)" by (cases r) auto
    with Inr show ?thesis by (simp add: rebalance_def)
  qed
qed

lemma tick_result:
  assumes "instrument_list s = first # rest"
    and "on_marketdatafeed pv s md = (s', effs, err)"
  shows "(effs, err) =
     (if rebalance_counter s + (if instrument md = first then 1 else 0) < rebalance_period s
      then ([], None)
      else (Log RebalancingDay # fst (rebalance pv s'), snd (rebalance pv s')))"
  using assms
  by (auto simp: on_marketdatafeed_def Let_def split: option.splits prod.splits)

text \<open>
  C7: whenever, after a tick has been handled, some instrument of the universe has a
  history shorter than the lookback period, the call sent no order, and if the call ran
  the rebalancing day logic then the counter is back at 0, so the next cycle is a full
  one. When every instrument of the universe has a history (as after \<open>start\<close>), the
  call raised nothing, and a call that ran the rebalancing day logic logged the
  deficiency and nothing else.
\<close>

theorem short_history_skips_rebalance:
  assumes "on_marketdatafeed pv s md = (s', effs, err)"
    and "i \<in> set (instrument_list s')" and "historical_data s' i = Some ps"
    and "int (length ps) < lookback_period s'"
  shows "(\<forall>j q t p m. SendOrder j q t p m \<notin> set effs) \<and>
         (fired (s', effs, err) \<longrightarrow> rebalance_counter s' = 0) \<and>
         (set (instrument_list s) \<subseteq> dom (historical_data s) \<longrightarrow>
            err = None \<and>
            (fired (s', effs, err) \<longrightarrow>
               (\<exists>j n. effs = [Log RebalancingDay, Log (NotEnoughData j n)])))"
proof -
  have s': "s' = fst (on_marketdatafeed pv s md)" using assms(1) by simp
  have cfg: "instrument_list s' = instrument_list s"
    using tick_config[of pv s md] s' by simp
  with assms(2) obtain first rest where u: "instrument_list s = first # rest"
    by (cases "instrument_list s") auto
  have dom: "dom (historical_data s') = dom (historical_data s)"
    using tick_dom[of pv s md] s' by simp
  note reb = rebalance_short_history[of i s' ps pv, OF assms(2,3,4)]
  show ?thesis
  proof (cases "rebalance_counter s + (if instrument md = first then 1 else 0) < rebalance_period s")
    case True
    with tick_result[OF u assms(1)] have "effs = []" "err = None" by simp_all
    then show ?thesis by (simp add: fired_def)
  next
    case False
    with tick_result[OF u assms(1)]
    have r: "effs = Log RebalancingDay # fst (rebalance pv s')" "err = snd (rebalance pv s')"
      by simp_all
    have c: "rebalance_counter s' = 0"
      using False tick_counter[OF u, of pv md] s' by (auto split: if_splits)
    from reb have no: "\<forall>j q t p m. SendOrder j q t p m \<notin> set (fst (rebalance pv s'))"
      by (rule conjunct1)
    have 1: "\<forall>j q t p m. SendOrder j q t p m \<notin> set effs"
      unfolding r(1) using no by simp
    have 3: "err = None \<and> (\<exists>j n. effs = [Log RebalancingDay, Log (NotEnoughData j n)])"
      if "set (instrument_list s) \<subseteq> dom (historical_data s)"
    proof -
      from that have "set (instrument_list s') \<subseteq> dom (historical_data s')"
        by (simp only: dom cfg)
      with reb obtain j n where "rebalance pv s' = ([Log (NotEnoughData j n)], None)"
        by blast
      then show ?thesis unfolding r by simp
    qed
    from 1 c 3 show ?thesis by blast
  qed
qed

theorem short_history_skips_rebalance_witness:
  "(\<forall>j q t p m. SendOrder j q t p m \<notin>
       set (fst (snd (on_marketdatafeed 100000 (fst (start (AlgoEvent_init\<lparr>rebalance_period := 1\<rparr>)))
              \<lparr>instrument = ''SPY'', close = 10\<rparr>)))) \<and>
   rebalance_counter (fst (on_marketdatafeed 100000 (fst (start (AlgoEvent_init\<lparr>rebalance_period := 1\<rparr>)))
              \<lparr>instrument = ''SPY'', close = 10\<rparr>)) = 0 \<and>
   snd (on_marketdatafeed 100000 (fst (start (AlgoEvent_init\<lparr>rebalance_period := 1\<rparr>)))
              \<lparr>instrument = ''SPY'', close = 10\<rparr>)
     = ([Log RebalancingDay, Log (NotEnoughData ''SPY'' 1)], None)"
proof -
  let ?s = "fst (start (AlgoEvent_init\<lparr>rebalance_period := 1\<rparr>))"
  let ?md = "\<lparr>instrument = ''SPY'', close = 10\<rparr>"
  let ?r = "on_marketdatafeed 100000 ?s ?md"
  have u: "instrument_list ?s = ''SPY'' # [''QQQ'', ''IWM'', ''EFA'', ''EEM'', ''GLD'', ''USO'']"
    by (simp add: start_def AlgoEvent_init_def)
  have run: "?r = (fst ?r, fst (snd ?r), snd (snd ?r))" by simp
  have i: "''SPY'' \<in> set (instrument_list (fst ?r))"
    using tick_config[of 100000 ?s ?md] u by simp
  have h: "historical_data (fst ?r) ''SPY'' = Some [10]"
    by (simp add: tick_history start_history AlgoEvent_init_def)
  have l: "int (length [10::real]) < lookback_period (fst ?r)"
    using tick_config[of 100000 ?s ?md] by (simp add: start_def AlgoEvent_init_def)
  have f: "fired (fst ?r, fst (snd ?r), snd (snd ?r))"
    using tick_fired[OF u, of 100000 ?md] by (simp add: start_def AlgoEvent_init_def)
  have e: "snd ?r = ([Log RebalancingDay, Log (NotEnoughData ''SPY'' 1)], None)"
    by (simp add: on_marketdatafeed_def start_def AlgoEvent_init_def rebalance_def)
  from short_history_skips_rebalance[OF run i h l] f e show ?thesis by simp
qed

lemma py_index_last: "ps \<noteq> [] \<Longrightarrow> py_index ps (- 1) = Inr (last ps)"
  by (cases ps rule: rev_cases) (auto simp: py_index_def nth_append)

lemma momentum_enough:
  assumes "1 \<le> lb" and "lb \<le> int (length ps)" and "ps ! (length ps - nat lb) \<noteq> 0"
  shows "momentum ps lb = Inr (last ps / ps ! (length ps - nat lb) - 1)"
proof -
  have ne: "ps \<noteq> []" using assms(1,2) by auto
  have old: "py_index ps (- lb) = Inr (ps ! (length ps - nat lb))"
    using assms(1,2) by (simp add: py_index_def nat_diff_distrib')
  have cur: "py_index ps (- 1) = Inr (last ps)"
    using ne by (rule py_index_last)
  show ?thesis using assms(3) by (simp add: momentum_def old cur)
qed

lemma momentum_too_short:
  assumes "1 \<le> lb" and "int (length ps) < lb"
  shows "momentum ps lb = Inl IndexError"
proof (cases "ps = []")
  case True
  then show ?thesis by (simp add: momentum_def py_index_def)
next
  case False
  then have cur: "py_index ps (- 1) = Inr (last ps)"
    by (rule py_index_last)
  have old: "py_index ps (- lb) = Inl IndexError"
    using assms by (simp add: py_index_def)
  show ?thesis by (simp add: momentum_def old cur)
qed

lemma check_history_passes:
  assumes "\<forall>i\<in>set U. \<exists>ps. h i = Some ps"
  shows "check_history h lb U = Inr None \<longleftrightarrow> (\<forall>i\<in>set U. \<forall>ps. h i = Some ps \<longrightarrow> lb \<le> int (length ps))"
  using assms
  by (induction U) (auto split: option.splits)

lemma check_history_reports:
  assumes "check_history h lb U = Inr (Some (j, n))"
  shows "j \<in> set U \<and> (\<exists>ps. h j = Some ps \<and> n = length ps \<and> int n < lb)"
  using assms
  by (induction U) (auto split: option.splits if_splits)

lemma momentum_scores_fold:
  assumes "\<forall>i\<in>set U. \<exists>ps. h i = Some ps \<and> momentum ps lb = Inr (m i)"
  shows "momentum_scores h lb U acc = Inr (fold (\<lambda>i. AList.update i (m i)) U acc)"
  using assms
  by (induction U arbitrary: acc) auto

lemma fold_update_map_of:
  "map_of (fold (\<lambda>i. AList.update i (m i)) U acc) i =
     (if i \<in> set U then Some (m i) else map_of acc i)"
  by (induction U arbitrary: acc) (auto simp: update_conv')

lemma fold_update_keys:
  "fst ` set (fold (\<lambda>i. AList.update i (m i)) U acc) = fst ` set acc \<union> set U"
  by (induction U arbitrary: acc) (auto simp: dom_update)

lemma update_fresh: "k \<notin> fst ` set al \<Longrightarrow> AList.update k v al = al @ [(k, v)]"
  by (induction al) auto

lemma fold_update_distinct:
  "distinct U \<Longrightarrow> fst ` set acc \<inter> set U = {} \<Longrightarrow>
   fold (\<lambda>i. AList.update i (m i)) U acc = acc @ map (\<lambda>i. (i, m i)) U"
proof (induction U arbitrary: acc)
  case Nil
  then show ?case by simp
next
  case (Cons a U)
  have fresh: "a \<notin> fst ` set acc" using Cons.prems(2) by auto
  have "fst ` set (acc @ [(a, m a)]) \<inter> set U = {}" using Cons.prems by auto
  with Cons.IH[of "acc @ [(a, m a)]"] Cons.prems(1) fresh show ?case
    by (simp add: update_fresh)
qed

lemma ranked_mset: "mset (ranked_instruments xs) = mset xs"
  by (simp add: ranked_instruments_def)

lemma ranked_set: "set (ranked_instruments xs) = set xs"
  by (simp add: ranked_instruments_def)

lemma ranked_length: "length (ranked_instruments xs) = length xs"
  by (simp add: ranked_instruments_def)

lemma ranked_descending: "sorted_wrt (\<lambda>a b. snd b \<le> snd a) (ranked_instruments xs)"
proof -
  have "sorted (map snd (sort_key snd (rev xs)))" by (rule sorted_sort_key)
  then have "sorted_wrt (\<lambda>a b. snd a \<le> snd b) (sort_key snd (rev xs))"
    by (simp add: sorted_wrt_map)
  then show ?thesis by (simp add: ranked_instruments_def sorted_wrt_rev)
qed

lemma ranked_stable:
  "filter (\<lambda>x. snd x = v) (ranked_instruments xs) = filter (\<lambda>x. snd x = v) xs"
proof -
  have "filter (\<lambda>x. snd x = v) (ranked_instruments xs)
      = rev (filter (\<lambda>x. snd x = v) (sort_key snd (rev xs)))"
    by (simp add: ranked_instruments_def rev_filter)
  also have "\<dots> = rev (filter (\<lambda>x. snd x = v) (rev xs))"
    by (simp only: sort_key_stable)
  also have "\<dots> = filter (\<lambda>x. snd x = v) xs" by (simp add: rev_filter)
  finally show ?thesis .
qed

lemma ranked_distinct_keys:
  "distinct (map fst xs) \<Longrightarrow> distinct (map fst (ranked_instruments xs))"
  by (simp add: ranked_instruments_def rev_map[symmetric] distinct_map)

lemma check_history_total:
  assumes "\<forall>i\<in>set U. \<exists>ps. h i = Some ps"
  shows "(\<exists>j n. check_history h lb U = Inr (Some (j, n))) \<longleftrightarrow> check_history h lb U \<noteq> Inr None"
  using assms
  by (induction U) (auto split: option.splits)

lemma momentum_zero_price:
  assumes "1 \<le> lb" and "lb \<le> int (length ps)" and "ps ! (length ps - nat lb) = 0"
  shows "momentum ps lb = Inl ZeroDivisionError"
proof -
  have ne: "ps \<noteq> []" using assms(1,2) by auto
  have old: "py_index ps (- lb) = Inr (ps ! (length ps - nat lb))"
    using assms(1,2) by (simp add: py_index_def nat_diff_distrib')
  have cur: "py_index ps (- 1) = Inr (last ps)"
    using ne by (rule py_index_last)
  show ?thesis using assms(3) by (simp add: momentum_def old cur)
qed

lemma momentum_cases:
  assumes "1 \<le> lb"
  shows "momentum ps lb =
     (if int (length ps) < lb then Inl IndexError
      else if ps ! (length ps - nat lb) = 0 then Inl ZeroDivisionError
      else Inr (last ps / ps ! (length ps - nat lb) - 1))"
  using momentum_too_short[OF assms, of ps] momentum_zero_price[OF assms, of ps]
    momentum_enough[OF assms, of ps]
  by (auto simp: not_less)

lemma momentum_scores_zero_price:
  assumes "1 \<le> lb"
    and "\<forall>i\<in>set U. \<exists>ps. h i = Some ps \<and> lb \<le> int (length ps)"
    and "\<exists>i\<in>set U. \<exists>ps. h i = Some ps \<and> ps ! (length ps - nat lb) = 0"
  shows "momentum_scores h lb U acc = Inl ZeroDivisionError"
  using assms(2,3)
proof (induction U arbitrary: acc)
  case Nil
  then show ?case by simp
next
  case (Cons a U)
  from Cons.prems(1) obtain ps where ps: "h a = Some ps" "lb \<le> int (length ps)" by auto
  show ?case
  proof (cases "ps ! (length ps - nat lb) = 0")
    case True
    with momentum_zero_price[OF assms(1) ps(2)] ps(1) show ?thesis by simp
  next
    case False
    from momentum_enough[OF assms(1) ps(2) False] obtain v where v: "momentum ps lb = Inr v"
      by blast
    from Cons.prems(2) False ps(1)
    have ex: "\<exists>i\<in>set U. \<exists>ps. h i = Some ps \<and> ps ! (length ps - nat lb) = 0" by auto
    from Cons.prems(1) have all: "\<forall>i\<in>set U. \<exists>ps. h i = Some ps \<and> lb \<le> int (length ps)" by simp
    from Cons.IH[OF all ex] ps(1) v show ?thesis by simp
  qed
qed

text \<open>
  C1, as the specification states it, at the price sequence \<open>[0, 4]\<close> with lookback 2: the
  sequence has two prices, so the length check passes, and \<open>prices[-2]\<close> is 0, so
  \<open>prices[-1] / prices[-2]\<close> raises \<open>ZeroDivisionError\<close> instead of returning a value.
\<close>

theorem zero_price_momentum_counterexample:
  "\<not> int (length [0, 4 :: real]) < 2 \<and>
   momentum [0, 4] 2 = Inl ZeroDivisionError \<and>
   check_history [''A'' \<mapsto> [0, 4]] 2 [''A''] = Inr None \<and>
   momentum_scores [''A'' \<mapsto> [0, 4]] 2 [''A''] [] = Inl ZeroDivisionError"
  by (simp add: momentum_def py_index_def)

text \<open>
  C1, amended: for a lookback of at least 1 and every universe whose instruments have a
  history, whatever its prices. The source has no exception for a short history: the
  length check of the rebalancing day logic reports an instrument (logs it and skips the
  rebalance) exactly when some history has fewer than \<open>lookback\<close> prices. The momentum
  expression of a history raises \<open>IndexError\<close> when the history has fewer than
  \<open>lookback\<close> prices, raises \<open>ZeroDivisionError\<close> when it has enough and the price
  \<open>lookback\<close> places from the end is 0, and otherwise is the last price divided by that
  price, minus one. When every history is long enough the check passes, and the scores
  are these quotients for every instrument, unless one of the divisors is 0, in which case
  the loop raises \<open>ZeroDivisionError\<close>.
\<close>

theorem momentum_defined_iff_enough_history:
  assumes "1 \<le> lb"
    and "\<forall>i\<in>set U. h i = Some (hist i)"
  shows "((\<exists>j n. check_history h lb U = Inr (Some (j, n))) \<longleftrightarrow>
            (\<exists>i\<in>set U. int (length (hist i)) < lb)) \<and>
         (\<forall>i\<in>set U.
            momentum (hist i) lb =
              (if int (length (hist i)) < lb then Inl IndexError
               else if hist i ! (length (hist i) - nat lb) = 0 then Inl ZeroDivisionError
               else Inr (last (hist i) / hist i ! (length (hist i) - nat lb) - 1))) \<and>
         ((\<forall>i\<in>set U. lb \<le> int (length (hist i))) \<longrightarrow>
            check_history h lb U = Inr None \<and>
            ((\<exists>i\<in>set U. hist i ! (length (hist i) - nat lb) = 0) \<longrightarrow>
               momentum_scores h lb U [] = Inl ZeroDivisionError) \<and>
            ((\<forall>i\<in>set U. hist i ! (length (hist i) - nat lb) \<noteq> 0) \<longrightarrow>
               (\<exists>scores. momentum_scores h lb U [] = Inr scores \<and>
                  (\<forall>i\<in>set U. map_of scores i =
                     Some (last (hist i) / hist i ! (length (hist i) - nat lb) - 1)))))"
proof -
  have some: "\<forall>i\<in>set U. \<exists>ps. h i = Some ps" using assms(2) by auto
  have pass: "check_history h lb U = Inr None \<longleftrightarrow> (\<forall>i\<in>set U. lb \<le> int (length (hist i)))"
    using check_history_passes[OF some, of lb] assms(2) by auto
  have 1: "(\<exists>j n. check_history h lb U = Inr (Some (j, n))) \<longleftrightarrow>
            (\<exists>i\<in>set U. int (length (hist i)) < lb)"
    unfolding check_history_total[OF some] pass by (auto simp: not_le)
  have 2: "\<forall>i\<in>set U.
            momentum (hist i) lb =
              (if int (length (hist i)) < lb then Inl IndexError
               else if hist i ! (length (hist i) - nat lb) = 0 then Inl ZeroDivisionError
               else Inr (last (hist i) / hist i ! (length (hist i) - nat lb) - 1))"
    using momentum_cases[OF assms(1)] by blast
  have 3: "momentum_scores h lb U [] = Inl ZeroDivisionError"
    if all: "\<forall>i\<in>set U. lb \<le> int (length (hist i))"
      and z: "\<exists>i\<in>set U. hist i ! (length (hist i) - nat lb) = 0"
  proof (rule momentum_scores_zero_price[OF assms(1)])
    show "\<forall>i\<in>set U. \<exists>ps. h i = Some ps \<and> lb \<le> int (length ps)"
      using assms(2) all by auto
    show "\<exists>i\<in>set U. \<exists>ps. h i = Some ps \<and> ps ! (length ps - nat lb) = 0"
      using assms(2) z by auto
  qed
  have 4: "\<exists>scores. momentum_scores h lb U [] = Inr scores \<and>
               (\<forall>i\<in>set U. map_of scores i =
                  Some (last (hist i) / hist i ! (length (hist i) - nat lb) - 1))"
    if all: "\<forall>i\<in>set U. lb \<le> int (length (hist i))"
      and nz: "\<forall>i\<in>set U. hist i ! (length (hist i) - nat lb) \<noteq> 0"
  proof -
    let ?m = "\<lambda>i. last (hist i) / hist i ! (length (hist i) - nat lb) - 1"
    have "\<forall>i\<in>set U. \<exists>ps. h i = Some ps \<and> momentum ps lb = Inr (?m i)"
      using assms(2) all nz momentum_enough[OF assms(1)] by auto
    from momentum_scores_fold[OF this, of "[]"]
    have "momentum_scores h lb U [] = Inr (fold (\<lambda>i. AList.update i (?m i)) U [])" .
    moreover have "\<forall>i\<in>set U. map_of (fold (\<lambda>i. AList.update i (?m i)) U []) i = Some (?m i)"
      by (simp add: fold_update_map_of)
    ultimately show ?thesis by blast
  qed
  from 1 2 3 4 pass show ?thesis by blast
qed

theorem momentum_defined_iff_enough_history_witness:
  "momentum [100, 110, 121] 2 = Inr (1 / 10) \<and>
   (\<exists>scores. momentum_scores [''A'' \<mapsto> [100, 110, 121]] 2 [''A''] [] = Inr scores \<and>
      map_of scores ''A'' = Some (1 / 10))"
proof -
  let ?h = "[''A'' \<mapsto> [100, 110, 121 :: real]]"
  let ?hist = "\<lambda>i :: string. [100, 110, 121 :: real]"
  have lb: "(1::int) \<le> 2" by simp
  have hist: "\<forall>i\<in>set [''A'']. ?h i = Some (?hist i)" by simp
  have len: "\<forall>i\<in>set [''A'']. 2 \<le> int (length (?hist i))" by simp
  have nz: "\<forall>i\<in>set [''A'']. ?hist i ! (length (?hist i) - nat 2) \<noteq> 0" by simp
  note inst = momentum_defined_iff_enough_history[OF lb hist]
  from inst have "\<forall>i\<in>set [''A'']. momentum (?hist i) 2 =
              (if int (length (?hist i)) < 2 then Inl IndexError
               else if ?hist i ! (length (?hist i) - nat 2) = 0 then Inl ZeroDivisionError
               else Inr (last (?hist i) / ?hist i ! (length (?hist i) - nat 2) - 1))"
    by (rule conjunct1[OF conjunct2])
  then have m: "momentum [100, 110, 121] 2 = Inr (1 / 10)" by simp
  from inst len nz
  obtain scores where "momentum_scores ?h 2 [''A''] [] = Inr scores"
    "\<forall>i\<in>set [''A'']. map_of scores i = Some (last (?hist i) / ?hist i ! (length (?hist i) - nat 2) - 1)"
    by blast
  then have "\<exists>scores. momentum_scores ?h 2 [''A''] [] = Inr scores \<and>
      map_of scores ''A'' = Some (1 / 10)"
    by (intro exI[of _ scores]) simp
  with m show ?thesis by simp
qed

lemma longs_of_take: "0 \<le> K \<Longrightarrow> longs_of K ranked = take (nat K) (map fst ranked)"
  by (simp add: longs_of_def py_slice_to_def take_map)

lemma shorts_of_drop:
  "1 \<le> K \<Longrightarrow> shorts_of K ranked = drop (length ranked - nat K) (map fst ranked)"
  by (simp add: shorts_of_def py_slice_from_def drop_map nat_diff_distrib')

lemma shorts_of_zero: "shorts_of 0 ranked = map fst ranked"
  by (simp add: shorts_of_def py_slice_from_def)

lemma longs_shorts_disjoint:
  assumes "distinct (map fst ranked)" and "1 \<le> K" and "2 * K \<le> int (length ranked)"
  shows "set (longs_of K ranked) \<inter> set (shorts_of K ranked) = {} \<and>
         length (longs_of K ranked) = nat K \<and> length (shorts_of K ranked) = nat K \<and>
         distinct (longs_of K ranked) \<and> distinct (shorts_of K ranked)"
proof -
  have K0: "0 \<le> K" using assms(2) by simp
  have L: "longs_of K ranked = take (nat K) (map fst ranked)" by (rule longs_of_take[OF K0])
  have S: "shorts_of K ranked = drop (length (map fst ranked) - nat K) (map fst ranked)"
    using shorts_of_drop[OF assms(2), of ranked] by simp
  have le: "nat K \<le> length (map fst ranked) - nat K" using assms(2,3) by simp
  have le2: "nat K \<le> length (map fst ranked)" using assms(2,3) by simp
  from set_take_disj_set_drop_if_distinct[OF assms(1) le]
  have "set (longs_of K ranked) \<inter> set (shorts_of K ranked) = {}" by (simp only: L S)
  moreover have "length (longs_of K ranked) = nat K" using le2 by (simp only: L length_take min_absorb2)
  moreover have "length (shorts_of K ranked) = nat K"
    using le2 by (simp add: S)
  moreover have "distinct (longs_of K ranked)" "distinct (shorts_of K ranked)"
    using assms(1) by (simp_all only: L S distinct_take distinct_drop)
  ultimately show ?thesis by blast
qed

lemma reachable_ranking_preconditions:
  assumes "reachable s"
  shows "1 \<le> hold_N_assets s \<and> 2 * hold_N_assets s \<le> int (length (instrument_list s)) \<and>
         distinct (instrument_list s)"
  using reachable_config[OF assms] by simp

text \<open>
  C2: for a universe \<open>U\<close> that names no instrument twice, a hold count \<open>K\<close> with
  \<open>1 \<le> K\<close> and \<open>2K\<close> at most the size of \<open>U\<close> (all three hold in every state the
  engine reaches, lemma \<open>reachable_ranking_preconditions\<close>), and every assignment \<open>m\<close>
  of momentum scores to the universe: the ranking is a rearrangement of the scored
  instruments, in descending order of score, and instruments with equal scores keep
  their universe order; the long set is the first \<open>K\<close> of the ranking, the short set
  its last \<open>K\<close>, and the flat set the instruments of the universe in neither; each of
  the long and the short set has exactly \<open>K\<close> instruments, and the three sets are
  pairwise disjoint and together are the universe. In the scenario of the specification
  the ranking is \<open>A, C, B, D\<close>, the longs are \<open>[A]\<close>, the shorts \<open>[D]\<close> and the flats
  \<open>[B, C]\<close>.
\<close>

theorem ranking_sorts_and_partitions:
  assumes "1 \<le> K" and "2 * K \<le> int (length U)" and "distinct U"
  shows "(let scores = map (\<lambda>i. (i, m i)) U;
              ranked = ranked_instruments scores;
              longs = longs_of K ranked;
              shorts = shorts_of K ranked;
              flats = flats_of U longs shorts
          in mset ranked = mset scores \<and>
             sorted_wrt (\<lambda>a b. snd b \<le> snd a) ranked \<and>
             (\<forall>v. filter (\<lambda>x. snd x = v) ranked = filter (\<lambda>x. snd x = v) scores) \<and>
             longs = take (nat K) (map fst ranked) \<and>
             shorts = drop (length U - nat K) (map fst ranked) \<and>
             flats = filter (\<lambda>i. i \<notin> set longs \<union> set shorts) U \<and>
             length longs = nat K \<and> length shorts = nat K \<and>
             distinct longs \<and> distinct shorts \<and> distinct flats \<and>
             set longs \<inter> set shorts = {} \<and> set longs \<inter> set flats = {} \<and>
             set shorts \<inter> set flats = {} \<and>
             set longs \<union> set shorts \<union> set flats = set U) \<and>
         (let ranked = ranked_instruments
                 [(''A'', 1 / 10), (''B'', - 1 / 20), (''C'', 1 / 50), (''D'', - 1 / 10)]
          in map fst ranked = [''A'', ''C'', ''B'', ''D''] \<and>
             longs_of 1 ranked = [''A''] \<and> shorts_of 1 ranked = [''D''] \<and>
             flats_of [''A'', ''B'', ''C'', ''D''] (longs_of 1 ranked) (shorts_of 1 ranked)
               = [''B'', ''C''])"
proof -
  define scores where "scores = map (\<lambda>i. (i, m i)) U"
  define ranked where "ranked = ranked_instruments scores"
  define L where "L = longs_of K ranked"
  define S where "S = shorts_of K ranked"
  define F where "F = flats_of U L S"
  have K0: "0 \<le> K" using assms(1) by simp
  have keys: "map fst scores = U" by (simp add: scores_def comp_def)
  have len: "length ranked = length U" by (simp add: ranked_def ranked_length scores_def)
  have dr: "distinct (map fst ranked)"
    unfolding ranked_def using ranked_distinct_keys[of scores] assms(3) by (simp add: keys)
  have names: "set (map fst ranked) = set U"
  proof -
    have "set (map fst ranked) = set (map fst scores)" by (simp add: ranked_def ranked_set)
    then show ?thesis by (simp only: keys)
  qed
  have K2: "2 * K \<le> int (length ranked)" using assms(2) by (simp only: len)
  from longs_shorts_disjoint[OF dr assms(1) K2]
  have LS: "set L \<inter> set S = {}" and lL: "length L = nat K" and lS: "length S = nat K"
    and dL: "distinct L" and dS: "distinct S"
    by (simp_all only: L_def S_def)
  have Lt: "L = take (nat K) (map fst ranked)" unfolding L_def by (rule longs_of_take[OF K0])
  have St: "S = drop (length U - nat K) (map fst ranked)"
    unfolding S_def using shorts_of_drop[OF assms(1), of ranked] by (simp only: len)
  have subL: "set L \<subseteq> set U" using names by (auto simp: Lt dest: in_set_takeD)
  have subS: "set S \<subseteq> set U" using names by (auto simp: St dest: in_set_dropD)
  have Ff: "F = filter (\<lambda>i. i \<notin> set L \<union> set S) U" by (simp add: F_def flats_of_def)
  have dF: "distinct F" using assms(3) by (simp add: Ff)
  have LF: "set L \<inter> set F = {}" and SF: "set S \<inter> set F = {}" by (auto simp: Ff)
  have cover: "set L \<union> set S \<union> set F = set U" using subL subS by (auto simp: Ff)
  have perm: "mset ranked = mset scores" by (simp add: ranked_def ranked_mset)
  have desc: "sorted_wrt (\<lambda>a b. snd b \<le> snd a) ranked"
    unfolding ranked_def by (rule ranked_descending)
  have stable: "\<forall>v. filter (\<lambda>x. snd x = v) ranked = filter (\<lambda>x. snd x = v) scores"
    unfolding ranked_def by (simp add: ranked_stable)
  have general: "let scores = map (\<lambda>i. (i, m i)) U;
              ranked = ranked_instruments scores;
              longs = longs_of K ranked;
              shorts = shorts_of K ranked;
              flats = flats_of U longs shorts
          in mset ranked = mset scores \<and>
             sorted_wrt (\<lambda>a b. snd b \<le> snd a) ranked \<and>
             (\<forall>v. filter (\<lambda>x. snd x = v) ranked = filter (\<lambda>x. snd x = v) scores) \<and>
             longs = take (nat K) (map fst ranked) \<and>
             shorts = drop (length U - nat K) (map fst ranked) \<and>
             flats = filter (\<lambda>i. i \<notin> set longs \<union> set shorts) U \<and>
             length longs = nat K \<and> length shorts = nat K \<and>
             distinct longs \<and> distinct shorts \<and> distinct flats \<and>
             set longs \<inter> set shorts = {} \<and> set longs \<inter> set flats = {} \<and>
             set shorts \<inter> set flats = {} \<and>
             set longs \<union> set shorts \<union> set flats = set U"
    unfolding Let_def scores_def[symmetric] ranked_def[symmetric] L_def[symmetric]
      S_def[symmetric] F_def[symmetric]
    by (intro conjI) (fact perm desc stable Lt St Ff lL lS dL dS dF LS LF SF cover)+
  have r: "ranked_instruments [(''A'', 1 / 10), (''B'', - 1 / 20), (''C'', 1 / 50), (''D'', - 1 / 10)]
      = [(''A'', 1 / 10), (''C'', 1 / 50), (''B'', - 1 / 20), (''D'', - 1 / 10 :: real)]"
    by (simp add: ranked_instruments_def)
  have scenario: "let ranked = ranked_instruments
                 [(''A'', 1 / 10), (''B'', - 1 / 20), (''C'', 1 / 50), (''D'', - 1 / 10)]
          in map fst ranked = [''A'', ''C'', ''B'', ''D''] \<and>
             longs_of 1 ranked = [''A''] \<and> shorts_of 1 ranked = [''D''] \<and>
             flats_of [''A'', ''B'', ''C'', ''D''] (longs_of 1 ranked) (shorts_of 1 ranked)
               = [''B'', ''C'']"
    unfolding Let_def r
    by (simp add: longs_of_def shorts_of_def flats_of_def py_slice_to_def py_slice_from_def)
  from general scenario show ?thesis by (rule conjI)
qed

theorem ranking_sorts_and_partitions_witness:
  "longs_of 2 (ranked_instruments (map (\<lambda>i. (i, real (length i)))
       [''AAA'', ''B'', ''CC'', ''DDDDD'', ''EEEE''])) = [''DDDDD'', ''EEEE''] \<and>
   shorts_of 2 (ranked_instruments (map (\<lambda>i. (i, real (length i)))
       [''AAA'', ''B'', ''CC'', ''DDDDD'', ''EEEE''])) = [''CC'', ''B''] \<and>
   flats_of [''AAA'', ''B'', ''CC'', ''DDDDD'', ''EEEE'']
     (longs_of 2 (ranked_instruments (map (\<lambda>i. (i, real (length i)))
       [''AAA'', ''B'', ''CC'', ''DDDDD'', ''EEEE''])))
     (shorts_of 2 (ranked_instruments (map (\<lambda>i. (i, real (length i)))
       [''AAA'', ''B'', ''CC'', ''DDDDD'', ''EEEE'']))) = [''AAA'']"
proof -
  let ?U = "[''AAA'', ''B'', ''CC'', ''DDDDD'', ''EEEE'']"
  let ?m = "\<lambda>i :: string. real (length i)"
  let ?r = "ranked_instruments (map (\<lambda>i. (i, ?m i)) ?U)"
  have K: "(1::int) \<le> 2" and K2: "2 * (2::int) \<le> int (length ?U)" and d: "distinct ?U"
    by simp_all
  have r: "map fst ?r = [''DDDDD'', ''EEEE'', ''AAA'', ''CC'', ''B'']"
    by (simp add: ranked_instruments_def)
  from ranking_sorts_and_partitions[OF K K2 d, of ?m]
  have L: "longs_of 2 ?r = take (nat 2) (map fst ?r)"
    and S: "shorts_of 2 ?r = drop (length ?U - nat 2) (map fst ?r)"
    and F: "flats_of ?U (longs_of 2 ?r) (shorts_of 2 ?r)
              = filter (\<lambda>i. i \<notin> set (longs_of 2 ?r) \<union> set (shorts_of 2 ?r)) ?U"
    unfolding Let_def by blast+
  have L': "longs_of 2 ?r = [''DDDDD'', ''EEEE'']" unfolding L r by simp
  have S': "shorts_of 2 ?r = [''CC'', ''B'']" unfolding S r by simp
  have F': "flats_of ?U (longs_of 2 ?r) (shorts_of 2 ?r) = [''AAA'']"
    unfolding F unfolding L' S' by simp
  from L' S' F' show ?thesis by (intro conjI)
qed

section \<open>Facts about the orders of a rebalance\<close>

lemma send_targets_all:
  assumes "\<forall>i\<in>set xs. \<exists>ps. h i = Some ps \<and> ps \<noteq> [] \<and> last ps \<noteq> 0"
  shows "send_targets h c b xs =
     (map (\<lambda>i. SendOrder i (if b then - (c / last (the (h i))) else c / last (the (h i)))
                  ''MKT'' 0 ''TARGET_SHARES'') xs, None)"
  using assms
proof (induction xs)
  case Nil
  then show ?case by simp
next
  case (Cons a xs)
  from Cons.prems obtain ps where ps: "h a = Some ps" "ps \<noteq> []" "last ps \<noteq> 0" by auto
  have "send_targets h c b xs =
     (map (\<lambda>i. SendOrder i (if b then - (c / last (the (h i))) else c / last (the (h i)))
                  ''MKT'' 0 ''TARGET_SHARES'') xs, None)"
    using Cons by simp
  then show ?case using ps by (simp add: py_index_last)
qed

lemma longs_of_subset: "set (longs_of K ranked) \<subseteq> fst ` set ranked"
  by (auto simp: longs_of_def py_slice_to_def dest: in_set_takeD)

lemma shorts_of_subset: "set (shorts_of K ranked) \<subseteq> fst ` set ranked"
  by (auto simp: shorts_of_def py_slice_from_def dest: in_set_dropD)

lemma rebalance_runs:
  assumes chk: "check_history (historical_data s) (lookback_period s) (instrument_list s) = Inr None"
    and ms: "momentum_scores (historical_data s) (lookback_period s) (instrument_list s) []
               = Inr scores"
    and prices: "\<forall>i\<in>fst ` set scores. \<exists>ps. historical_data s i = Some ps \<and> ps \<noteq> [] \<and> last ps \<noteq> 0"
    and longs: "longs = longs_of (hold_N_assets s) (ranked_instruments scores)"
    and shorts: "shorts = shorts_of (hold_N_assets s) (ranked_instruments scores)"
    and flats: "flats = flats_of (instrument_list s) longs shorts"
  shows "rebalance pv s =
     (if length longs + length shorts = 0
      then ([Log (TopPerformers longs), Log (BottomPerformers shorts), Log (ClosingPositions flats)],
            None)
      else ([Log (TopPerformers longs), Log (BottomPerformers shorts), Log (ClosingPositions flats)]
            @ map (\<lambda>i. SendOrder i 0 ''MKT'' 0 ''TARGET_SHARES'') flats
            @ map (\<lambda>i. SendOrder i
                     (pv / real (length longs + length shorts) / last (the (historical_data s i)))
                     ''MKT'' 0 ''TARGET_SHARES'') longs
            @ map (\<lambda>i. SendOrder i
                     (- (pv / real (length longs + length shorts) / last (the (historical_data s i))))
                     ''MKT'' 0 ''TARGET_SHARES'') shorts,
            None))"
proof -
  have pl: "\<forall>i\<in>set longs. \<exists>ps. historical_data s i = Some ps \<and> ps \<noteq> [] \<and> last ps \<noteq> 0"
    using prices longs_of_subset[of "hold_N_assets s" "ranked_instruments scores"]
    by (auto simp: longs ranked_set)
  have psh: "\<forall>i\<in>set shorts. \<exists>ps. historical_data s i = Some ps \<and> ps \<noteq> [] \<and> last ps \<noteq> 0"
    using prices shorts_of_subset[of "hold_N_assets s" "ranked_instruments scores"]
    by (auto simp: shorts ranked_set)
  note sl = send_targets_all[OF pl, of "pv / real (length longs + length shorts)" False]
  note ss = send_targets_all[OF psh, of "pv / real (length longs + length shorts)" True]
  show ?thesis
    unfolding flats unfolding longs shorts
    using sl[unfolded longs shorts] ss[unfolded longs shorts]
    by (simp add: rebalance_def chk ms Let_def)
qed

lemma scores_exist:
  assumes lb: "1 \<le> lb"
    and hist: "\<forall>i\<in>set U. \<exists>ps. h i = Some ps \<and> lb \<le> int (length ps) \<and> (\<forall>p\<in>set ps. 0 < p)"
  shows "check_history h lb U = Inr None \<and>
         (\<exists>m. momentum_scores h lb U [] = Inr (fold (\<lambda>i. AList.update i (m i)) U []))"
proof -
  have some: "\<forall>i\<in>set U. \<exists>ps. h i = Some ps" using hist by auto
  have chk: "check_history h lb U = Inr None"
    using check_history_passes[OF some, of lb] hist by fastforce
  define m where "m i = last (the (h i)) / the (h i) ! (length (the (h i)) - nat lb) - 1" for i
  have "\<forall>i\<in>set U. \<exists>ps. h i = Some ps \<and> momentum ps lb = Inr (m i)"
  proof
    fix i assume "i \<in> set U"
    with hist obtain ps where ps: "h i = Some ps" "lb \<le> int (length ps)" "\<forall>p\<in>set ps. 0 < p"
      by auto
    have "length ps - nat lb < length ps" using lb ps(2) by auto
    then have "ps ! (length ps - nat lb) \<in> set ps" by (rule nth_mem)
    with ps(3) have "ps ! (length ps - nat lb) \<noteq> 0" by fastforce
    from momentum_enough[OF lb ps(2) this] ps(1)
    show "\<exists>ps. h i = Some ps \<and> momentum ps lb = Inr (m i)" by (simp add: m_def)
  qed
  from momentum_scores_fold[OF this, of "[]"] chk show ?thesis by blast
qed

lemma last_price_positive:
  assumes lb: "1 \<le> lb"
    and hist: "\<forall>i\<in>set U. \<exists>ps. h i = Some ps \<and> lb \<le> int (length ps) \<and> (\<forall>p\<in>set ps. 0 < p)"
    and "i \<in> set U"
  shows "\<exists>ps. h i = Some ps \<and> ps \<noteq> [] \<and> 0 < last ps"
proof -
  from hist assms(3) obtain ps where ps: "h i = Some ps" "lb \<le> int (length ps)" "\<forall>p\<in>set ps. 0 < p"
    by auto
  have "ps \<noteq> []" using lb ps(2) by auto
  with ps show ?thesis by auto
qed




lemma rebalance_with_history:
  assumes lb: "1 \<le> lookback_period s"
    and hist: "\<forall>i\<in>set (instrument_list s). \<exists>ps. historical_data s i = Some ps \<and>
                 lookback_period s \<le> int (length ps) \<and> (\<forall>p\<in>set ps. 0 < p)"
  shows "\<exists>m. let scores = fold (\<lambda>i. AList.update i (m i)) (instrument_list s) [];
                 longs = longs_of (hold_N_assets s) (ranked_instruments scores);
                 shorts = shorts_of (hold_N_assets s) (ranked_instruments scores);
                 flats = flats_of (instrument_list s) longs shorts
             in set longs \<subseteq> set (instrument_list s) \<and> set shorts \<subseteq> set (instrument_list s) \<and>
                rebalance pv s =
                 (if length longs + length shorts = 0
                  then ([Log (TopPerformers longs), Log (BottomPerformers shorts),
                         Log (ClosingPositions flats)], None)
                  else ([Log (TopPerformers longs), Log (BottomPerformers shorts),
                         Log (ClosingPositions flats)]
                        @ map (\<lambda>i. SendOrder i 0 ''MKT'' 0 ''TARGET_SHARES'') flats
                        @ map (\<lambda>i. SendOrder i
                                 (pv / real (length longs + length shorts)
                                    / last (the (historical_data s i)))
                                 ''MKT'' 0 ''TARGET_SHARES'') longs
                        @ map (\<lambda>i. SendOrder i
                                 (- (pv / real (length longs + length shorts)
                                       / last (the (historical_data s i))))
                                 ''MKT'' 0 ''TARGET_SHARES'') shorts,
                        None))"
proof -
  from scores_exist[OF lb hist] obtain m where
    chk: "check_history (historical_data s) (lookback_period s) (instrument_list s) = Inr None"
    and ms: "momentum_scores (historical_data s) (lookback_period s) (instrument_list s) []
               = Inr (fold (\<lambda>i. AList.update i (m i)) (instrument_list s) [])"
    by blast
  define scores where "scores = fold (\<lambda>i. AList.update i (m i)) (instrument_list s) []"
  have keys: "fst ` set scores = set (instrument_list s)"
    by (simp add: scores_def fold_update_keys)
  have prices: "\<forall>i\<in>fst ` set scores. \<exists>ps. historical_data s i = Some ps \<and> ps \<noteq> [] \<and> last ps \<noteq> 0"
  proof
    fix i assume "i \<in> fst ` set scores"
    then have "i \<in> set (instrument_list s)" by (simp only: keys)
    from last_price_positive[OF lb hist this]
    show "\<exists>ps. historical_data s i = Some ps \<and> ps \<noteq> [] \<and> last ps \<noteq> 0" by auto
  qed
  have sub: "set (longs_of (hold_N_assets s) (ranked_instruments scores)) \<subseteq> set (instrument_list s)"
    "set (shorts_of (hold_N_assets s) (ranked_instruments scores)) \<subseteq> set (instrument_list s)"
    using longs_of_subset[of "hold_N_assets s" "ranked_instruments scores"]
      shorts_of_subset[of "hold_N_assets s" "ranked_instruments scores"]
    by (simp_all add: ranked_set keys)
  note run = rebalance_runs[OF chk ms[folded scores_def] prices refl refl refl, of pv]
  show ?thesis
    unfolding Let_def scores_def[symmetric]
    using sub run by (intro exI[of _ m]) (simp add: scores_def[symmetric])
qed



lemma three_instrument_rebalance:
  "rebalance pv three_instrument_engine =
     ([Log (TopPerformers [''A'']), Log (BottomPerformers [''C'']), Log (ClosingPositions [''B'']),
       SendOrder ''B'' 0 ''MKT'' 0 ''TARGET_SHARES'',
       SendOrder ''A'' (pv / 2 / 4) ''MKT'' 0 ''TARGET_SHARES'',
       SendOrder ''C'' (- (pv / 2 / 2)) ''MKT'' 0 ''TARGET_SHARES''], None)"
  by (simp add: three_instrument_engine_def rebalance_def momentum_def py_index_def
      ranked_instruments_def longs_of_def shorts_of_def flats_of_def py_slice_to_def
      py_slice_from_def Let_def)



text \<open>
  C9, as the specification states it, at the portfolio value 0: the rebalance runs, and
  the long \<open>A\<close> and the short \<open>C\<close> are both sent the target 0, which is neither positive
  nor negative.
\<close>

theorem zero_portfolio_value_counterexample:
  "rebalance 0 three_instrument_engine =
     ([Log (TopPerformers [''A'']), Log (BottomPerformers [''C'']), Log (ClosingPositions [''B'']),
       SendOrder ''B'' 0 ''MKT'' 0 ''TARGET_SHARES'',
       SendOrder ''A'' 0 ''MKT'' 0 ''TARGET_SHARES'',
       SendOrder ''C'' 0 ''MKT'' 0 ''TARGET_SHARES''], None)"
  by (simp add: three_instrument_rebalance)

lemma order_instruments_of_orders:
  "List.map_filter order_instrument (map (\<lambda>i. SendOrder i (q i) t p m) xs) = xs"
  by (induction xs) simp_all

lemma map_filter_append: "List.map_filter f (xs @ ys) = List.map_filter f xs @ List.map_filter f ys"
  by (simp add: List.map_filter_def)

text \<open>
  C9, amended: in a rebalance with a positive portfolio value, over a universe that is not
  empty and names no instrument twice, whose instruments all have at least \<open>lookback\<close>
  positive prices (so every momentum score is defined), with a hold count \<open>K\<close> such that
  \<open>0 \<le> K\<close> and \<open>2K\<close> is at most the universe size: nothing is raised; the long, short
  and flat sets that are logged are pairwise disjoint and together are the universe; the
  instruments of the orders sent are the universe, each exactly once; and every order is
  a market order in target shares, with target 0 for a flat instrument, a positive target
  for a long one and a negative target for a short one.
\<close>

theorem rebalance_orders_cover_universe:
  assumes lb: "1 \<le> lookback_period s"
    and hist: "\<forall>i\<in>set (instrument_list s). \<exists>ps. historical_data s i = Some ps \<and>
                 lookback_period s \<le> int (length ps) \<and> (\<forall>p\<in>set ps. 0 < p)"
    and dist: "distinct (instrument_list s)" and ne: "instrument_list s \<noteq> []"
    and K0: "0 \<le> hold_N_assets s"
    and K2: "2 * hold_N_assets s \<le> int (length (instrument_list s))"
    and pv: "0 < pv"
    and run: "rebalance pv s = (effs, err)"
  shows "err = None \<and>
         (\<exists>longs shorts flats.
            Log (TopPerformers longs) \<in> set effs \<and> Log (BottomPerformers shorts) \<in> set effs \<and>
            Log (ClosingPositions flats) \<in> set effs \<and>
            set longs \<inter> set shorts = {} \<and> set longs \<inter> set flats = {} \<and>
            set shorts \<inter> set flats = {} \<and>
            set longs \<union> set shorts \<union> set flats = set (instrument_list s) \<and>
            mset (List.map_filter order_instrument effs) = mset (instrument_list s) \<and>
            (\<forall>i q t p m. SendOrder i q t p m \<in> set effs \<longrightarrow>
               t = ''MKT'' \<and> p = 0 \<and> m = ''TARGET_SHARES'' \<and>
               (i \<in> set flats \<longrightarrow> q = 0) \<and> (i \<in> set longs \<longrightarrow> 0 < q) \<and>
               (i \<in> set shorts \<longrightarrow> q < 0)))"
proof -
  let ?h = "historical_data s"
  let ?U = "instrument_list s"
  let ?K = "hold_N_assets s"
  from rebalance_with_history[OF lb hist, of pv] obtain m where
    R: "let scores = fold (\<lambda>i. AList.update i (m i)) ?U [];
            longs = longs_of ?K (ranked_instruments scores);
            shorts = shorts_of ?K (ranked_instruments scores);
            flats = flats_of ?U longs shorts
        in set longs \<subseteq> set ?U \<and> set shorts \<subseteq> set ?U \<and>
           rebalance pv s =
             (if length longs + length shorts = 0
              then ([Log (TopPerformers longs), Log (BottomPerformers shorts),
                     Log (ClosingPositions flats)], None)
              else ([Log (TopPerformers longs), Log (BottomPerformers shorts),
                     Log (ClosingPositions flats)]
                    @ map (\<lambda>i. SendOrder i 0 ''MKT'' 0 ''TARGET_SHARES'') flats
                    @ map (\<lambda>i. SendOrder i
                             (pv / real (length longs + length shorts) / last (the (?h i)))
                             ''MKT'' 0 ''TARGET_SHARES'') longs
                    @ map (\<lambda>i. SendOrder i
                             (- (pv / real (length longs + length shorts) / last (the (?h i))))
                             ''MKT'' 0 ''TARGET_SHARES'') shorts,
                    None))"
    by blast
  define scores where "scores = fold (\<lambda>i. AList.update i (m i)) ?U []"
  define names where "names = map fst (ranked_instruments scores)"
  define L where "L = longs_of ?K (ranked_instruments scores)"
  define S where "S = shorts_of ?K (ranked_instruments scores)"
  define F where "F = flats_of ?U L S"
  define c where "c = pv / real (length L + length S)"
  have sc: "scores = map (\<lambda>i. (i, m i)) ?U"
    using fold_update_distinct[OF dist, of "[]" m] by (simp add: scores_def)
  have keys: "map fst scores = ?U" by (simp add: sc comp_def)
  have dn: "distinct names"
    unfolding names_def using ranked_distinct_keys[of scores] dist by (simp add: keys)
  have sn: "set names = set ?U"
  proof -
    have "set names = set (map fst scores)" by (simp add: names_def ranked_set)
    then show ?thesis by (simp only: keys)
  qed
  have ln: "length names = length ?U"
  proof -
    have "length names = length (map fst scores)" by (simp add: names_def ranked_length)
    then show ?thesis by (simp only: keys)
  qed
  have Lt: "L = take (nat ?K) names"
    unfolding L_def names_def by (rule longs_of_take[OF K0])
  have St: "S = (if ?K = 0 then names else drop (length names - nat ?K) names)"
  proof (cases "?K = 0")
    case True
    then show ?thesis by (simp add: S_def names_def shorts_of_zero)
  next
    case False
    with K0 have "1 \<le> ?K" by simp
    from shorts_of_drop[OF this, of "ranked_instruments scores"] False
    show ?thesis by (simp add: S_def names_def)
  qed
  have LS: "set L \<inter> set S = {}"
  proof (cases "?K = 0")
    case True
    then show ?thesis by (simp add: Lt)
  next
    case False
    have "nat ?K \<le> length names - nat ?K" using K0 K2 ln by linarith
    from set_take_disj_set_drop_if_distinct[OF dn this] False show ?thesis
      by (simp add: Lt St)
  qed
  have dL: "distinct L" and dS: "distinct S" using dn by (simp_all add: Lt St)
  have subL: "set L \<subseteq> set ?U" and subS: "set S \<subseteq> set ?U"
    using sn by (auto simp: Lt St dest: in_set_takeD in_set_dropD)
  have Fset: "set F = set ?U - (set L \<union> set S)" by (auto simp: F_def flats_of_def)
  have dF: "distinct F" using dist by (simp add: F_def flats_of_def)
  have n: "length L + length S \<noteq> 0"
  proof (cases "?K = 0")
    case True
    with ne ln show ?thesis by (simp add: St)
  next
    case False
    then have "0 < nat ?K" using K0 by simp
    moreover have "nat ?K \<le> length names" using K0 K2 ln by linarith
    ultimately show ?thesis by (simp add: Lt)
  qed
  have cpos: "0 < c"
  proof -
    have "0 < length L + length S" using n by (simp only: neq0_conv)
    then have "0 < real (length L + length S)" by (simp only: of_nat_0_less_iff)
    with pv show ?thesis unfolding c_def by (rule divide_pos_pos)
  qed
  have reb: "rebalance pv s =
       ([Log (TopPerformers L), Log (BottomPerformers S), Log (ClosingPositions F)]
        @ map (\<lambda>i. SendOrder i 0 ''MKT'' 0 ''TARGET_SHARES'') F
        @ map (\<lambda>i. SendOrder i (c / last (the (?h i))) ''MKT'' 0 ''TARGET_SHARES'') L
        @ map (\<lambda>i. SendOrder i (- (c / last (the (?h i)))) ''MKT'' 0 ''TARGET_SHARES'') S,
        None)"
  proof -
    from R have "rebalance pv s =
             (if length L + length S = 0
              then ([Log (TopPerformers L), Log (BottomPerformers S),
                     Log (ClosingPositions F)], None)
              else ([Log (TopPerformers L), Log (BottomPerformers S),
                     Log (ClosingPositions F)]
                    @ map (\<lambda>i. SendOrder i 0 ''MKT'' 0 ''TARGET_SHARES'') F
                    @ map (\<lambda>i. SendOrder i (c / last (the (?h i))) ''MKT'' 0 ''TARGET_SHARES'') L
                    @ map (\<lambda>i. SendOrder i (- (c / last (the (?h i)))) ''MKT'' 0 ''TARGET_SHARES'') S,
                    None))"
      unfolding Let_def scores_def[symmetric] L_def[symmetric] S_def[symmetric]
        F_def[symmetric] c_def[symmetric]
      by (rule conjunct2[OF conjunct2])
    then show ?thesis by (simp only: n if_False)
  qed
  have effs: "effs = [Log (TopPerformers L), Log (BottomPerformers S), Log (ClosingPositions F)]
        @ map (\<lambda>i. SendOrder i 0 ''MKT'' 0 ''TARGET_SHARES'') F
        @ map (\<lambda>i. SendOrder i (c / last (the (?h i))) ''MKT'' 0 ''TARGET_SHARES'') L
        @ map (\<lambda>i. SendOrder i (- (c / last (the (?h i)))) ''MKT'' 0 ''TARGET_SHARES'') S"
    and err: "err = None"
    using run reb by simp_all
  have insts: "List.map_filter order_instrument effs = F @ L @ S"
    unfolding effs map_filter_append order_instruments_of_orders
    by (simp add: List.map_filter_simps)
  have "distinct (F @ L @ S)" using dF dL dS LS Fset by auto
  moreover have "set (F @ L @ S) = set ?U" using Fset subL subS by auto
  ultimately have ms: "mset (F @ L @ S) = mset ?U"
    using dist by (simp only: set_eq_iff_mset_eq_distinct)
  have price: "0 < last (the (?h i))" if "i \<in> set ?U" for i
    using last_price_positive[OF lb hist that] by auto
  have orders: "t = ''MKT'' \<and> p = 0 \<and> m' = ''TARGET_SHARES'' \<and>
      (i \<in> set F \<longrightarrow> q = 0) \<and> (i \<in> set L \<longrightarrow> 0 < q) \<and> (i \<in> set S \<longrightarrow> q < 0)"
    if mem: "SendOrder i q t p m' \<in> set effs" for i q t p m'
  proof -
    from mem consider
      (flat) "i \<in> set F" "q = 0" "t = ''MKT''" "p = 0" "m' = ''TARGET_SHARES''"
      | (long) "i \<in> set L" "q = c / last (the (?h i))" "t = ''MKT''" "p = 0" "m' = ''TARGET_SHARES''"
      | (short) "i \<in> set S" "q = - (c / last (the (?h i)))" "t = ''MKT''" "p = 0"
          "m' = ''TARGET_SHARES''"
      unfolding effs by auto
    then show ?thesis
    proof cases
      case flat
      with Fset show ?thesis by auto
    next
      case long
      with subL have "0 < q" using price[of i] cpos by (simp add: subset_iff)
      with long LS Fset show ?thesis by auto
    next
      case short
      with subS have "q < 0" using price[of i] cpos by (simp add: subset_iff)
      with short LS Fset show ?thesis by auto
    qed
  qed
  have logs: "Log (TopPerformers L) \<in> set effs" "Log (BottomPerformers S) \<in> set effs"
    "Log (ClosingPositions F) \<in> set effs"
    unfolding effs by simp_all
  have parts: "set L \<inter> set F = {}" "set S \<inter> set F = {}" "set L \<union> set S \<union> set F = set ?U"
    using Fset subL subS by auto
  have all_orders: "\<forall>i q t p m. SendOrder i q t p m \<in> set effs \<longrightarrow>
               t = ''MKT'' \<and> p = 0 \<and> m = ''TARGET_SHARES'' \<and>
               (i \<in> set F \<longrightarrow> q = 0) \<and> (i \<in> set L \<longrightarrow> 0 < q) \<and>
               (i \<in> set S \<longrightarrow> q < 0)"
    by (intro allI impI) (rule orders)
  have ms': "mset (List.map_filter order_instrument effs) = mset ?U"
    by (simp only: insts ms)
  show ?thesis
    by (intro conjI exI[of _ L] exI[of _ S] exI[of _ F])
      (fact err logs LS parts ms' all_orders)+
qed



theorem rebalance_orders_cover_universe_witness:
  "snd (rebalance 80 three_instrument_engine) = None \<and>
   mset (List.map_filter order_instrument (fst (rebalance 80 three_instrument_engine)))
     = mset (instrument_list three_instrument_engine)"
proof -
  let ?s = three_instrument_engine
  have lb: "1 \<le> lookback_period ?s" by (simp add: three_instrument_engine_def)
  have hist: "\<forall>i\<in>set (instrument_list ?s). \<exists>ps. historical_data ?s i = Some ps \<and>
                 lookback_period ?s \<le> int (length ps) \<and> (\<forall>p\<in>set ps. 0 < p)"
    by (simp add: three_instrument_engine_def)
  have dist: "distinct (instrument_list ?s)" and ne: "instrument_list ?s \<noteq> []"
    and K0: "0 \<le> hold_N_assets ?s"
    and K2: "2 * hold_N_assets ?s \<le> int (length (instrument_list ?s))"
    by (simp_all add: three_instrument_engine_def)
  have pv: "(0::real) < 80" by simp
  have run: "rebalance 80 ?s = (fst (rebalance 80 ?s), snd (rebalance 80 ?s))" by simp
  from rebalance_orders_cover_universe[OF lb hist dist ne K0 K2 pv run]
  show ?thesis by blast
qed

end
